theory Spec2Isabelle
  imports Main "HOL-Library.Word" "HOL-Library.Multiset"
begin

section \<open>Constants of package tun\<close>

text \<open>
  The constants of the forwarding engine. Lengths and capacities are natural numbers;
  values a Device hands back (packet counts and packet sizes) are Go \<open>int\<close>s and are kept
  as integers, since a Device may return anything.
\<close>

definition batchSize :: nat where "batchSize = 128"
definition offset :: nat where "offset = 10"
definition mtuSize :: nat where "mtuSize = 1500"
definition maxPktSize :: nat where "maxPktSize = 65535 + offset"

text \<open>Capacity of the channel created by \<open>forwardWithChannel\<close>.\<close>

definition chanCap :: nat where "chanCap = 2048"

text \<open>Addition on Go's 64-bit \<open>int\<close> wraps around.\<close>

definition int64 :: "int \<Rightarrow> int" where
  "int64 x = (x + 2 ^ 63) mod 2 ^ 64 - 2 ^ 63"

section \<open>Byte slices over an explicit store\<close>

text \<open>
  A Go byte slice is a reference to a backing array together with a length and a
  capacity. Every slice of the program starts at index 0 of its array (the only slicing
  expression used is \<open>b[:k]\<close>), so a slice is the address of its array, its length and
  its capacity. The store maps an address to the contents of the array found there.
  Address 0 is never allocated: it stands for the nil slice.
\<close>

type_synonym byte = "8 word"
type_synonym heap = "nat \<Rightarrow> nat \<Rightarrow> byte"

record slice =
  s_addr :: nat
  s_len :: nat
  s_cap :: nat

definition nil_slice :: slice where
  "nil_slice = \<lparr>s_addr = 0, s_len = 0, s_cap = 0\<rparr>"

text \<open>\<open>b[:k]\<close> panics unless \<open>0 \<le> k \<le> cap(b)\<close>; \<open>None\<close> is the panic.\<close>

definition reslice :: "slice \<Rightarrow> int \<Rightarrow> slice option" where
  "reslice b k = (if 0 \<le> k \<and> k \<le> int (s_cap b) then Some (b\<lparr>s_len := nat k\<rparr>) else None)"

text \<open>The bytes a slice shows: the first \<open>len\<close> bytes of its array.\<close>

definition slice_bytes :: "heap \<Rightarrow> slice \<Rightarrow> byte list" where
  "slice_bytes h b = map (h (s_addr b)) [0..<s_len b]"

text \<open>\<open>make([]byte, n)\<close> at the next free address: a zeroed array.\<close>

definition make_slice :: "nat \<Rightarrow> nat \<Rightarrow> slice" where
  "make_slice a n = \<lparr>s_addr = a, s_len = n, s_cap = n\<rparr>"

definition zero_at :: "heap \<Rightarrow> nat \<Rightarrow> heap" where
  "zero_at h a = h(a := (\<lambda>_. 0))"

text \<open>The allocation loop \<open>for i := 0; i < batchSize; i++ { bufs[i] = make([]byte, n) }\<close>.\<close>

fun make_bufs :: "nat \<Rightarrow> nat \<Rightarrow> nat \<Rightarrow> slice list" where
  "make_bufs 0 a n = []"
| "make_bufs (Suc k) a n = make_slice a n # make_bufs k (Suc a) n"

text \<open>\<open>copy(dst, src)\<close> copies \<open>min(len(dst), len(src))\<close> bytes.\<close>

definition copy_slice :: "heap \<Rightarrow> slice \<Rightarrow> slice \<Rightarrow> heap" where
  "copy_slice h dst src =
     h(s_addr dst := (\<lambda>j. if j < min (s_len dst) (s_len src) then h (s_addr src) j
                            else h (s_addr dst) j))"

section \<open>The Device\<close>

text \<open>
  The Device interface (\<open>Read(bufs, sizes, offset) (n, err)\<close> and
  \<open>Write(bufs, offset) (n, err)\<close>) is implemented outside the repository sources, so
  the Device is a parameter of the model.

  A source Device is the list of the outcomes of its successive \<open>Read\<close> calls; when the
  list is used up the next \<open>Read\<close> blocks for ever. One outcome is the returned count and
  error, and what the call did to the arguments it was given: for the buffers
  \<open>bufs[0], bufs[1], ...\<close> in turn the bytes stored from index 0 on (header
  reservation first, then the payload), the value stored in \<open>sizes[i]\<close>, and the new
  length of \<open>bufs[i]\<close> when the implementation reslices the caller's buffer.

  A destination Device gives, for its k-th \<open>Write\<close> call and the batch written, the
  returned count and error.
\<close>

record buf_eff =
  ef_data :: "byte list"
  ef_size :: int
  ef_len :: "nat option"

record read_outcome =
  ro_n :: int
  ro_err :: bool
  ro_effs :: "buf_eff list"

type_synonym src_device = "read_outcome list"
type_synonym dst_device = "nat \<Rightarrow> byte list list \<Rightarrow> int \<times> bool"

text \<open>A destination that accepts every batch in full.\<close>

definition dst_accept :: dst_device where
  "dst_accept = (\<lambda>k bs. (int (length bs), False))"

text \<open>The Device stores bytes into a buffer it was given, within the buffer's length.\<close>

definition dev_fill :: "heap \<Rightarrow> slice \<Rightarrow> byte list \<Rightarrow> heap" where
  "dev_fill h b d =
     h(s_addr b := (\<lambda>j. if j < min (s_len b) (length d) then d ! j else h (s_addr b) j))"

definition relen :: "slice \<Rightarrow> nat option \<Rightarrow> slice" where
  "relen b l = (case l of None \<Rightarrow> b
                | Some k \<Rightarrow> if k \<le> s_cap b then b\<lparr>s_len := k\<rparr> else b)"

fun dev_read :: "nat \<Rightarrow> buf_eff list \<Rightarrow> heap \<times> slice list \<times> int list
                  \<Rightarrow> heap \<times> slice list \<times> int list" where
  "dev_read i [] st = st"
| "dev_read i (e # es) (h, bufs, sizes) =
     (if i < length bufs \<and> i < length sizes then
        dev_read (Suc i) es
          (dev_fill h (bufs ! i) (ef_data e), bufs[i := relen (bufs ! i) (ef_len e)],
           sizes[i := ef_size e])
      else (h, bufs, sizes))"

section \<open>What a task does: events\<close>

datatype logmsg =
    LogReadErrorExiting
  | LogReadError
  | LogWriteError
  | LogBufferTooSmall
  | LogStarting bool bool
  | LogUsingChannel
  | LogUsingDirect
  | LogInitializedPool
  | LogDisabledPool
  | LogForwardingStarted

text \<open>
  A \<open>Read\<close> event records the lengths of the buffers handed to the Device and the
  returned count and error; a \<open>Write\<close> event records the bytes of every buffer of the
  batch and the returned count and error. The other events are the channel and pool
  operations of the queued pipeline.
\<close>

datatype event =
    EvRead "nat list" int bool
  | EvWrite "byte list list" int bool
  | EvLog logmsg
  | EvSend
  | EvRecv
  | EvPoll bool
  | EvGet slice
  | EvPut slice

datatype status = Running | Exited | Blocked | Panicked

section \<open>Direct forwarding: \<open>forward\<close>\<close>

definition bufLen :: nat where "bufLen = mtuSize + offset"

record fwd_state =
  f_heap :: heap
  f_src :: src_device
  f_dst :: dst_device
  f_nwrites :: nat
  f_bufs :: "slice list"
  f_outBufs :: "slice list"
  f_sizes :: "int list"
  f_status :: status
  f_events :: "event list"

text \<open>The state after the allocations that precede the loop. Events are kept newest first.\<close>

definition forward_init :: "src_device \<Rightarrow> dst_device \<Rightarrow> fwd_state" where
  "forward_init src dst =
     \<lparr>f_heap = (\<lambda>_ _. 0), f_src = src, f_dst = dst, f_nwrites = 0,
      f_bufs = make_bufs batchSize 1 maxPktSize,
      f_outBufs = replicate batchSize nil_slice,
      f_sizes = replicate batchSize 0,
      f_status = Running, f_events = []\<rparr>"

text \<open>\<open>for i := 0; i < batchSize; i++ { bufs[i] = bufs[i][:bufLen] }\<close>\<close>

fun reset_bufs :: "slice list \<Rightarrow> int \<Rightarrow> slice list option" where
  "reset_bufs [] k = Some []"
| "reset_bufs (b # bs) k =
     (case reslice b k of None \<Rightarrow> None
      | Some b' \<Rightarrow> (case reset_bufs bs k of None \<Rightarrow> None | Some bs' \<Rightarrow> Some (b' # bs')))"

text \<open>
  \<open>for i := 0; i < n; i++ { outBufs[i] = bufs[i][:sizes[i]+offset] }\<close>: the first
  argument counts the iterations left. An index beyond the arrays and a slice bound out
  of range panic.
\<close>

fun out_loop :: "nat \<Rightarrow> nat \<Rightarrow> slice list \<Rightarrow> int list \<Rightarrow> slice list \<Rightarrow> slice list option" where
  "out_loop 0 i bufs sizes outBufs = Some outBufs"
| "out_loop (Suc k) i bufs sizes outBufs =
     (if i < length bufs \<and> i < length sizes \<and> i < length outBufs then
        (case reslice (bufs ! i) (int64 (sizes ! i + int offset)) of
           None \<Rightarrow> None
         | Some b \<Rightarrow> out_loop k (Suc i) bufs sizes (outBufs[i := b]))
      else None)"

text \<open>
  The call \<open>dst.Write(outBufs[:n], offset)\<close> and the logging of its error, shared by all
  the loops that write. \<open>outBufs[:n]\<close> panics unless \<open>0 \<le> n \<le> cap(outBufs)\<close>.
\<close>

definition write_event :: "dst_device \<Rightarrow> nat \<Rightarrow> heap \<Rightarrow> slice list \<Rightarrow> event list" where
  "write_event dst k h batch =
     (let bs = map (slice_bytes h) batch; r = dst k bs
      in (if snd r then [EvLog LogWriteError] else []) @ [EvWrite bs (fst r) (snd r)])"

text \<open>One iteration of the loop of \<open>forward\<close> (the pooling-capable package).\<close>

definition forward_iter :: "fwd_state \<Rightarrow> fwd_state" where
  "forward_iter s =
     (case reset_bufs (f_bufs s) (int bufLen) of
        None \<Rightarrow> s\<lparr>f_status := Panicked\<rparr>
      | Some bufs1 \<Rightarrow>
        (case f_src s of
           [] \<Rightarrow> s\<lparr>f_bufs := bufs1, f_status := Blocked\<rparr>
         | ro # rest \<Rightarrow>
           (case dev_read 0 (ro_effs ro) (f_heap s, bufs1, f_sizes s) of
              (h, bufs2, sizes2) \<Rightarrow>
              let s1 = s\<lparr>f_heap := h, f_bufs := bufs2, f_sizes := sizes2, f_src := rest,
                         f_events := EvRead (map s_len bufs1) (ro_n ro) (ro_err ro) # f_events s\<rparr>
              in if ro_err ro then
                   s1\<lparr>f_events := EvLog LogReadErrorExiting # f_events s1, f_status := Exited\<rparr>
                 else if ro_n ro = 0 then s1
                 else
                   (case out_loop (nat (ro_n ro)) 0 bufs2 sizes2 (f_outBufs s1) of
                      None \<Rightarrow> s1\<lparr>f_status := Panicked\<rparr>
                    | Some outs \<Rightarrow>
                      if ro_n ro < 0 \<or> int (length outs) < ro_n ro then
                        s1\<lparr>f_outBufs := outs, f_status := Panicked\<rparr>
                      else
                        s1\<lparr>f_outBufs := outs, f_nwrites := Suc (f_nwrites s1),
                            f_events := write_event (f_dst s1) (f_nwrites s1) h
                                          (take (nat (ro_n ro)) outs) @ f_events s1\<rparr>))))"

text \<open>
  The loop itself never ends unless a read fails: the first argument bounds the number
  of iterations looked at. A task that has exited, panicked or is blocked in a
  \<open>Read\<close> that never returns does nothing more.
\<close>

fun forward :: "nat \<Rightarrow> fwd_state \<Rightarrow> fwd_state" where
  "forward 0 s = s"
| "forward (Suc k) s = (if f_status s = Running then forward k (forward_iter s) else s)"

section \<open>Direct forwarding in the batch-only package\<close>

text \<open>
  The second package \<open>tun\<close> of the repository (the one whose \<open>Run\<close> takes no
  argument) has its own \<open>forward\<close>. It differs from the one above in two places: the
  buffers are reset to their whole allocated length \<open>65535 + offset\<close>, and a failed
  \<open>Read\<close> is logged and followed by \<open>continue\<close>.
\<close>

definition bufLen1 :: nat where "bufLen1 = 65535 + 10"

definition forward1_init :: "src_device \<Rightarrow> dst_device \<Rightarrow> fwd_state" where
  "forward1_init src dst =
     \<lparr>f_heap = (\<lambda>_ _. 0), f_src = src, f_dst = dst, f_nwrites = 0,
      f_bufs = make_bufs 128 1 bufLen1,
      f_outBufs = replicate 128 nil_slice,
      f_sizes = replicate 128 0,
      f_status = Running, f_events = []\<rparr>"

definition forward1_iter :: "fwd_state \<Rightarrow> fwd_state" where
  "forward1_iter s =
     (case reset_bufs (f_bufs s) (int bufLen1) of
        None \<Rightarrow> s\<lparr>f_status := Panicked\<rparr>
      | Some bufs1 \<Rightarrow>
        (case f_src s of
           [] \<Rightarrow> s\<lparr>f_bufs := bufs1, f_status := Blocked\<rparr>
         | ro # rest \<Rightarrow>
           (case dev_read 0 (ro_effs ro) (f_heap s, bufs1, f_sizes s) of
              (h, bufs2, sizes2) \<Rightarrow>
              let s1 = s\<lparr>f_heap := h, f_bufs := bufs2, f_sizes := sizes2, f_src := rest,
                         f_events := EvRead (map s_len bufs1) (ro_n ro) (ro_err ro) # f_events s\<rparr>
              in if ro_err ro then
                   s1\<lparr>f_events := EvLog LogReadError # f_events s1\<rparr>
                 else if ro_n ro = 0 then s1
                 else
                   (case out_loop (nat (ro_n ro)) 0 bufs2 sizes2 (f_outBufs s1) of
                      None \<Rightarrow> s1\<lparr>f_status := Panicked\<rparr>
                    | Some outs \<Rightarrow>
                      if ro_n ro < 0 \<or> int (length outs) < ro_n ro then
                        s1\<lparr>f_outBufs := outs, f_status := Panicked\<rparr>
                      else
                        s1\<lparr>f_outBufs := outs, f_nwrites := Suc (f_nwrites s1),
                            f_events := write_event (f_dst s1) (f_nwrites s1) h
                                          (take (nat (ro_n ro)) outs) @ f_events s1\<rparr>))))"

fun forward1 :: "nat \<Rightarrow> fwd_state \<Rightarrow> fwd_state" where
  "forward1 0 s = s"
| "forward1 (Suc k) s = (if f_status s = Running then forward1 k (forward1_iter s) else s)"

section \<open>Channel-based forwarding: \<open>readToChannel\<close> and \<open>writeFromChannel\<close>\<close>

record packet =
  buf :: slice
  psize :: int

text \<open>
  The reader and the writer of one direction run concurrently. Each is a small machine
  whose steps are its synchronisation points (a Device call, a channel operation, a pool
  operation); the local computation between two of them belongs to the step before.
  The control points of the reader:
  \<^item> \<open>R_Read\<close>: about to call \<open>src.Read\<close>;
  \<^item> \<open>R_Acquire i\<close>: at the head of the body of \<open>for i := 0; i < n; i++\<close>, about to
    get \<open>pktBuf\<close>;
  \<^item> \<open>R_Fill i pktBuf\<close>: holding \<open>pktBuf\<close>, about to size-check and fill it;
  \<^item> \<open>R_Send i pkt\<close>: about to send \<open>pkt\<close> on the channel;
  \<^item> \<open>R_Stopped\<close>: returned.

  The control points of the writer:
  \<^item> \<open>W_Wait\<close>: at \<open>for pkt := range ch\<close>, waiting for a packet;
  \<^item> \<open>W_Collect n\<close>: inside the \<open>collect\<close> loop, at the \<open>select\<close>, holding \<open>n\<close> packets;
  \<^item> \<open>W_Write n\<close>: after the loop, at \<open>if n > 0\<close>;
  \<^item> \<open>W_Release i n\<close>: in the loop that puts the buffers back, about to put number \<open>i\<close>.
\<close>

datatype rpc = R_Read | R_Acquire nat | R_Fill nat slice | R_Send nat packet | R_Stopped

datatype wpc = W_Wait | W_Collect nat | W_Write nat | W_Release nat nat

text \<open>
  The state of one direction. \<open>q_usePool\<close> is \<open>packetBufferPool != nil\<close>, read once by
  each task when it starts; \<open>q_pool\<close> is the content of the pool. A panic in any
  goroutine ends the process.
\<close>

record qstate =
  q_heap :: heap
  q_next :: nat
  q_usePool :: bool
  q_pool :: "slice list"
  q_panicked :: bool
  q_src :: src_device
  q_readBufs :: "slice list"
  q_sizes :: "int list"
  q_n :: int
  q_rpc :: rpc
  q_chan :: "packet list"
  q_bufs :: "slice list"
  q_originalBufs :: "slice list"
  q_wpc :: wpc
  q_dst :: dst_device
  q_nwrites :: nat
  q_events :: "event list"

text \<open>
  The pool may already hold buffers when the tasks start (\<open>caps\<close> lists their capacities);
  \<open>forwardWithChannel\<close> creates it empty.
\<close>

definition queued_init :: "bool \<Rightarrow> nat list \<Rightarrow> src_device \<Rightarrow> dst_device \<Rightarrow> qstate" where
  "queued_init usePool caps src dst =
     \<lparr>q_heap = (\<lambda>_ _. 0),
      q_next = Suc batchSize + length caps,
      q_usePool = usePool,
      q_pool = map (\<lambda>(a, c). make_slice a c) (zip [Suc batchSize ..< Suc batchSize + length caps] caps),
      q_panicked = False,
      q_src = src,
      q_readBufs = make_bufs batchSize 1 (mtuSize + offset),
      q_sizes = replicate batchSize 0,
      q_n = 0,
      q_rpc = R_Read,
      q_chan = [],
      q_bufs = replicate batchSize nil_slice,
      q_originalBufs = replicate batchSize nil_slice,
      q_wpc = W_Wait,
      q_dst = dst,
      q_nwrites = 0,
      q_events = []\<rparr>"

definition panic :: "qstate \<Rightarrow> qstate" where
  "panic s = s\<lparr>q_panicked := True\<rparr>"

definition emit :: "event \<Rightarrow> qstate \<Rightarrow> qstate" where
  "emit e s = s\<lparr>q_events := e # q_events s\<rparr>"

text \<open>\<open>make([]byte, n)\<close>: the new slice is \<open>make_slice (q_next s) n\<close>.\<close>

definition alloc :: "qstate \<Rightarrow> qstate" where
  "alloc s = s\<lparr>q_heap := zero_at (q_heap s) (q_next s), q_next := Suc (q_next s)\<rparr>"

text \<open>
  \<open>packetBufferPool.Get()\<close>: any buffer of the pool, or a new one from \<open>New\<close>
  (\<open>make([]byte, maxPktSize)\<close>), which \<open>sync.Pool\<close> may also choose when the pool is not
  empty. The choice \<open>c\<close> comes with the schedule.
\<close>

definition remove_nth :: "nat \<Rightarrow> 'a list \<Rightarrow> 'a list" where
  "remove_nth k xs = take k xs @ drop (Suc k) xs"

definition reader_acquire :: "nat \<Rightarrow> nat \<Rightarrow> qstate \<Rightarrow> qstate" where
  "reader_acquire c i s =
     (if q_usePool s then
        (if c < length (q_pool s) then
           emit (EvGet (q_pool s ! c))
             (s\<lparr>q_pool := remove_nth c (q_pool s), q_rpc := R_Fill i (q_pool s ! c)\<rparr>)
         else
           emit (EvGet (make_slice (q_next s) maxPktSize))
             (alloc (s\<lparr>q_rpc := R_Fill i (make_slice (q_next s) maxPktSize)\<rparr>)))
      else alloc (s\<lparr>q_rpc := R_Fill i (make_slice (q_next s) maxPktSize)\<rparr>))"

text \<open>
  Lines \<open>size := sizes[i] + offset\<close> to \<open>copy(pktBuf, readBufs[i][:size])\<close>, with the
  fallback allocation when \<open>cap(pktBuf) < size\<close>.
\<close>

definition reader_fill :: "nat \<Rightarrow> slice \<Rightarrow> qstate \<Rightarrow> qstate" where
  "reader_fill i pktBuf s =
     (if i < length (q_sizes s) \<and> i < length (q_readBufs s) then
        (let sz = int64 (q_sizes s ! i + int offset) in
         if int (s_cap pktBuf) < sz then
           (case reslice (q_readBufs s ! i) sz of
              None \<Rightarrow> panic (emit (EvLog LogBufferTooSmall) (alloc s))
            | Some rb \<Rightarrow>
                emit (EvLog LogBufferTooSmall)
                  (alloc s)\<lparr>q_heap := copy_slice (zero_at (q_heap s) (q_next s))
                                         (make_slice (q_next s) (nat sz)) rb,
                             q_rpc := R_Send i \<lparr>buf = make_slice (q_next s) (nat sz), psize = sz\<rparr>\<rparr>)
         else
           (case reslice (q_readBufs s ! i) sz of
              None \<Rightarrow> panic s
            | Some rb \<Rightarrow>
                s\<lparr>q_heap := copy_slice (q_heap s) pktBuf rb,
                  q_rpc := R_Send i \<lparr>buf = pktBuf, psize = sz\<rparr>\<rparr>))
      else panic s)"

definition reader_read :: "qstate \<Rightarrow> qstate" where
  "reader_read s =
     (case q_src s of
        [] \<Rightarrow> s
      | ro # rest \<Rightarrow>
        (case dev_read 0 (ro_effs ro) (q_heap s, q_readBufs s, q_sizes s) of
           (h, bufs2, sizes2) \<Rightarrow>
           let s1 = emit (EvRead (map s_len (q_readBufs s)) (ro_n ro) (ro_err ro))
                      (s\<lparr>q_heap := h, q_readBufs := bufs2, q_sizes := sizes2,
                         q_src := rest, q_n := ro_n ro\<rparr>)
           in if ro_err ro then emit (EvLog LogReadErrorExiting) (s1\<lparr>q_rpc := R_Stopped\<rparr>)
              else if 0 < ro_n ro then s1\<lparr>q_rpc := R_Acquire 0\<rparr>
              else s1))"

definition reader_send :: "nat \<Rightarrow> packet \<Rightarrow> qstate \<Rightarrow> qstate" where
  "reader_send i pkt s =
     (if length (q_chan s) < chanCap then
        emit EvSend
          (s\<lparr>q_chan := q_chan s @ [pkt],
             q_rpc := (if int (Suc i) < q_n s then R_Acquire (Suc i) else R_Read)\<rparr>)
      else s)"

definition readToChannel_step :: "nat \<Rightarrow> qstate \<Rightarrow> qstate" where
  "readToChannel_step c s =
     (case q_rpc s of
        R_Read \<Rightarrow> reader_read s
      | R_Acquire i \<Rightarrow> reader_acquire c i s
      | R_Fill i pktBuf \<Rightarrow> reader_fill i pktBuf s
      | R_Send i pkt \<Rightarrow> reader_send i pkt s
      | R_Stopped \<Rightarrow> s)"

text \<open>
  The writer stores a received packet at index \<open>n\<close>:
  \<open>bufs[n] = pkt.buf[:pkt.size]\<close> and, with pooling, \<open>originalBufs[n] = pkt.buf\<close>.
\<close>

definition writer_store :: "nat \<Rightarrow> packet \<Rightarrow> qstate \<Rightarrow> qstate option" where
  "writer_store n pkt s =
     (if n < length (q_bufs s) \<and> n < length (q_originalBufs s) then
        (case reslice (buf pkt) (psize pkt) of
           None \<Rightarrow> None
         | Some b \<Rightarrow>
             Some (s\<lparr>q_bufs := (q_bufs s)[n := b],
                     q_originalBufs := (if q_usePool s then (q_originalBufs s)[n := buf pkt]
                                        else q_originalBufs s)\<rparr>))
      else None)"

definition after_store :: "nat \<Rightarrow> wpc" where
  "after_store n = (if n < batchSize then W_Collect n else W_Write n)"

definition writer_wait :: "qstate \<Rightarrow> qstate" where
  "writer_wait s =
     (case q_chan s of
        [] \<Rightarrow> s
      | pkt # rest \<Rightarrow>
        (case writer_store 0 pkt (emit EvRecv (s\<lparr>q_chan := rest\<rparr>)) of
           None \<Rightarrow> panic (emit EvRecv (s\<lparr>q_chan := rest\<rparr>))
         | Some s1 \<Rightarrow> s1\<lparr>q_wpc := after_store 1\<rparr>))"

definition writer_collect :: "nat \<Rightarrow> qstate \<Rightarrow> qstate" where
  "writer_collect n s =
     (case q_chan s of
        [] \<Rightarrow> emit (EvPoll False) (s\<lparr>q_wpc := W_Write n\<rparr>)
      | pkt # rest \<Rightarrow>
        (case writer_store n pkt (emit (EvPoll True) (s\<lparr>q_chan := rest\<rparr>)) of
           None \<Rightarrow> panic (emit (EvPoll True) (s\<lparr>q_chan := rest\<rparr>))
         | Some s1 \<Rightarrow> s1\<lparr>q_wpc := after_store (Suc n)\<rparr>))"

definition writer_write :: "nat \<Rightarrow> qstate \<Rightarrow> qstate" where
  "writer_write n s =
     (if 0 < n then
        (if n \<le> length (q_bufs s) then
           s\<lparr>q_nwrites := Suc (q_nwrites s),
             q_events := write_event (q_dst s) (q_nwrites s) (q_heap s) (take n (q_bufs s))
                           @ q_events s,
             q_wpc := (if q_usePool s then W_Release 0 n else W_Wait)\<rparr>
         else panic s)
      else s\<lparr>q_wpc := W_Wait\<rparr>)"

definition writer_release :: "nat \<Rightarrow> nat \<Rightarrow> qstate \<Rightarrow> qstate" where
  "writer_release i n s =
     (if i < length (q_originalBufs s) then
        emit (EvPut (q_originalBufs s ! i))
          (s\<lparr>q_pool := q_pool s @ [q_originalBufs s ! i],
             q_wpc := (if Suc i < n then W_Release (Suc i) n else W_Wait)\<rparr>)
      else panic s)"

definition writeFromChannel_step :: "qstate \<Rightarrow> qstate" where
  "writeFromChannel_step s =
     (case q_wpc s of
        W_Wait \<Rightarrow> writer_wait s
      | W_Collect n \<Rightarrow> writer_collect n s
      | W_Write n \<Rightarrow> writer_write n s
      | W_Release i n \<Rightarrow> writer_release i n s)"

text \<open>
  The pool is the global \<open>packetBufferPool\<close>, shared with the tasks of the opposite
  direction, and \<open>sync.Pool\<close> may drop an item at any time. Seen from one direction,
  the rest of the program takes buffers out of the pool and puts buffers of its own
  into it; these are buffers this direction holds no reference to, so they appear at a
  new address, with full length and some content.
\<close>

definition pool_drop :: "nat \<Rightarrow> qstate \<Rightarrow> qstate" where
  "pool_drop k s = (if q_usePool s then s\<lparr>q_pool := remove_nth k (q_pool s)\<rparr> else s)"

definition pool_put :: "nat \<Rightarrow> byte list \<Rightarrow> qstate \<Rightarrow> qstate" where
  "pool_put c d s =
     (if q_usePool s then
        s\<lparr>q_heap := dev_fill (zero_at (q_heap s) (q_next s)) (make_slice (q_next s) c) d,
          q_next := Suc (q_next s),
          q_pool := q_pool s @ [make_slice (q_next s) c]\<rparr>
      else s)"

datatype action = ActReader nat | ActWriter | ActPoolDrop nat | ActPoolPut nat "byte list"

fun step :: "action \<Rightarrow> qstate \<Rightarrow> qstate" where
  "step a s =
     (if q_panicked s then s
      else (case a of
              ActReader c \<Rightarrow> readToChannel_step c s
            | ActWriter \<Rightarrow> writeFromChannel_step s
            | ActPoolDrop k \<Rightarrow> pool_drop k s
            | ActPoolPut c d \<Rightarrow> pool_put c d s))"

text \<open>A schedule is the order in which the tasks take their steps.\<close>

fun exec :: "action list \<Rightarrow> qstate \<Rightarrow> qstate" where
  "exec [] s = s"
| "exec (a # as) s = exec as (step a s)"

section \<open>\<open>forwardWithChannel\<close> and \<open>Run\<close>\<close>

datatype tun = Tun1 | Tun2

datatype task =
    GoForward tun tun
  | GoReadToChannel tun nat
  | GoWriteFromChannel tun nat

text \<open>
  What \<open>Run\<close> leaves behind: the global \<open>packetBufferPool\<close> (\<open>None\<close> is nil), the lines
  logged (oldest first), the goroutines started and the number of channels made.
  Creating and configuring the two interfaces is outside the model.
\<close>

record run_state =
  r_pool :: "slice list option"
  r_log :: "logmsg list"
  r_tasks :: "task list"
  r_chans :: nat

definition forwardWithChannel :: "tun \<Rightarrow> tun \<Rightarrow> bool \<Rightarrow> run_state \<Rightarrow> run_state" where
  "forwardWithChannel src dst usePool r =
     (let r1 = (if usePool \<and> r_pool r = None then
                  r\<lparr>r_pool := Some [], r_log := r_log r @ [LogInitializedPool]\<rparr>
                else if \<not> usePool \<and> r_pool r \<noteq> None then
                  r\<lparr>r_pool := None, r_log := r_log r @ [LogDisabledPool]\<rparr>
                else r)
      in r1\<lparr>r_tasks := r_tasks r1 @ [GoReadToChannel src (r_chans r1),
                                       GoWriteFromChannel dst (r_chans r1)],
            r_chans := Suc (r_chans r1)\<rparr>)"

definition Run :: "bool \<Rightarrow> bool \<Rightarrow> run_state" where
  "Run useChannel usePool =
     (let r0 = \<lparr>r_pool = None, r_log = [LogStarting useChannel usePool], r_tasks = [],
                r_chans = 0\<rparr>;
          r1 = (if useChannel then
                  forwardWithChannel Tun2 Tun1 usePool
                    (forwardWithChannel Tun1 Tun2 usePool
                       (r0\<lparr>r_log := r_log r0 @ [LogUsingChannel]\<rparr>))
                else
                  r0\<lparr>r_log := r_log r0 @ [LogUsingDirect],
                     r_tasks := r_tasks r0 @ [GoForward Tun1 Tun2, GoForward Tun2 Tun1]\<rparr>)
      in r1\<lparr>r_log := r_log r1 @ [LogForwardingStarted]\<rparr>)"

section \<open>Sample devices\<close>

text \<open>
  Sources used to run the model on concrete inputs. A packet is written with its ten
  bytes of header reservation first. \<open>pkt7\<close> has the one payload byte 7, \<open>pkt89\<close> the
  two payload bytes 8 and 9, \<open>pkt200\<close> two hundred payload bytes.
\<close>

definition pkt7 :: buf_eff where
  "pkt7 = \<lparr>ef_data = [0, 0, 0, 0, 0, 0, 0, 0, 0, 0, 7], ef_size = 1, ef_len = None\<rparr>"

definition pkt89 :: buf_eff where
  "pkt89 = \<lparr>ef_data = [0, 0, 0, 0, 0, 0, 0, 0, 0, 0, 8, 9], ef_size = 2, ef_len = None\<rparr>"

definition pkt200 :: buf_eff where
  "pkt200 = \<lparr>ef_data = replicate 210 7, ef_size = 200, ef_len = None\<rparr>"

text \<open>The first \<open>Read\<close> fails, the second returns \<open>pkt7\<close>.\<close>

definition src_fail_then_one :: src_device where
  "src_fail_then_one = [\<lparr>ro_n = 0, ro_err = True, ro_effs = []\<rparr>,
                        \<lparr>ro_n = 1, ro_err = False, ro_effs = [pkt7]\<rparr>]"

text \<open>One \<open>Read\<close> of two packets; one \<open>Read\<close> of none; one \<open>Read\<close> of a large packet.\<close>

definition src_two_packets :: src_device where
  "src_two_packets = [\<lparr>ro_n = 2, ro_err = False, ro_effs = [pkt7, pkt89]\<rparr>]"

definition src_empty_read :: src_device where
  "src_empty_read = [\<lparr>ro_n = 0, ro_err = False, ro_effs = []\<rparr>]"

definition src_one_200 :: src_device where
  "src_one_200 = [\<lparr>ro_n = 1, ro_err = False, ro_effs = [pkt200]\<rparr>]"

text \<open>
  A Device that truncates the caller's buffer to the bytes it read: the first \<open>Read\<close>
  returns \<open>pkt7\<close> and leaves \<open>bufs[0]\<close> with length 11, the second returns \<open>pkt89\<close>.
\<close>

definition src_truncating :: src_device where
  "src_truncating = [\<lparr>ro_n = 1, ro_err = False, ro_effs = [pkt7\<lparr>ef_len := Some 11\<rparr>]\<rparr>,
                     \<lparr>ro_n = 1, ro_err = False, ro_effs = [pkt89\<lparr>ef_len := Some 12\<rparr>]\<rparr>]"

section \<open>Properties of traces\<close>

text \<open>Event lists are newest first: the head is the latest event.\<close>

fun failed_read :: "event \<Rightarrow> bool" where
  "failed_read (EvRead ls n e) = e"
| "failed_read _ = False"

definition read_failed :: "event list \<Rightarrow> bool" where
  "read_failed es = list_ex failed_read es"

text \<open>The Device calls, and the operations only the reader task performs.\<close>

fun is_io :: "event \<Rightarrow> bool" where
  "is_io (EvRead ls n e) = True"
| "is_io (EvWrite bs n e) = True"
| "is_io _ = False"

fun is_reader_call :: "event \<Rightarrow> bool" where
  "is_reader_call (EvRead ls n e) = True"
| "is_reader_call (EvGet b) = True"
| "is_reader_call EvSend = True"
| "is_reader_call _ = False"

text \<open>
  \<open>quiet_after P es\<close>: no event that satisfies \<open>P\<close> comes after a failed \<open>Read\<close>.
\<close>

fun quiet_after :: "(event \<Rightarrow> bool) \<Rightarrow> event list \<Rightarrow> bool" where
  "quiet_after P [] = True"
| "quiet_after P (e # es) = ((\<not> read_failed es \<or> \<not> P e) \<and> quiet_after P es)"

text \<open>The buffers handed to the destination, in the order written.\<close>

fun written :: "event list \<Rightarrow> byte list list" where
  "written [] = []"
| "written (EvWrite bs n e # es) = written es @ bs"
| "written (_ # es) = written es"

text \<open>The packets a source produces until its first failed \<open>Read\<close>.\<close>

fun packets_of :: "src_device \<Rightarrow> byte list list" where
  "packets_of [] = []"
| "packets_of (ro # rest) =
     (if ro_err ro then [] else map ef_data (ro_effs ro) @ packets_of rest)"

section \<open>Basic facts\<close>

lemma int64_id: "- (2 ^ 63) \<le> x \<Longrightarrow> x < 2 ^ 63 \<Longrightarrow> int64 x = x"
  by (simp add: int64_def)

lemma make_bufs_map: "make_bufs k a n = map (\<lambda>i. make_slice i n) [a..<a + k]"
  by (induction k arbitrary: a) (simp_all add: upt_conv_Cons del: upt_Suc)

lemma length_make_bufs [simp]: "length (make_bufs k a n) = k"
  by (simp add: make_bufs_map)

lemma nth_make_bufs [simp]: "i < k \<Longrightarrow> make_bufs k a n ! i = make_slice (a + i) n"
  by (simp add: make_bufs_map)

lemma set_make_bufs:
  "b \<in> set (make_bufs k a n) \<Longrightarrow>
   s_cap b = n \<and> s_len b = n \<and> a \<le> s_addr b \<and> s_addr b < a + k"
  by (auto simp: make_bufs_map make_slice_def)

lemma map_addr_make_bufs: "map s_addr (make_bufs k a n) = [a..<a + k]"
  by (simp add: make_bufs_map make_slice_def comp_def)

lemma map_len_make_bufs [simp]: "map s_len (make_bufs k a n) = replicate k n"
  by (auto simp: make_bufs_map make_slice_def comp_def map_replicate_const)

lemma make_bufs_nonempty [simp]: "(make_bufs k a n = []) = (k = 0)"
  by (cases k) auto

lemma reset_bufs_Some:
  "0 \<le> k \<Longrightarrow> \<forall>b \<in> set bs. k \<le> int (s_cap b) \<Longrightarrow>
   reset_bufs bs k = Some (map (\<lambda>b. b\<lparr>s_len := nat k\<rparr>) bs)"
  by (induction bs) (auto simp: reslice_def)

lemma reset_bufs_SomeD:
  "reset_bufs bs k = Some bs' \<Longrightarrow> bs' = map (\<lambda>b. b\<lparr>s_len := nat k\<rparr>) bs"
  by (induction bs arbitrary: bs') (auto simp: reslice_def split: option.splits if_splits)

lemma reset_bufs_make_bufs_int: "reset_bufs (make_bufs k a n) (int n) = Some (make_bufs k a n)"
proof -
  have "reset_bufs (make_bufs k a n) (int n)
          = Some (map (\<lambda>b. b\<lparr>s_len := nat (int n)\<rparr>) (make_bufs k a n))"
    by (rule reset_bufs_Some) (auto dest: set_make_bufs)
  also have "map (\<lambda>b. b\<lparr>s_len := nat (int n)\<rparr>) (make_bufs k a n) = make_bufs k a n"
    by (auto intro!: map_idI dest: set_make_bufs)
  finally show ?thesis .
qed

lemma reset_bufs_make_bufs [simp]:
  "m = int n \<Longrightarrow> reset_bufs (make_bufs k a n) m = Some (make_bufs k a n)"
  by (simp add: reset_bufs_make_bufs_int)

lemma take1_update: "0 < length xs \<Longrightarrow> take (Suc 0) (xs[0 := b]) = [b]"
  by (cases xs) auto

lemma relen_addr_cap [simp]: "s_addr (relen b l) = s_addr b" "s_cap (relen b l) = s_cap b"
  by (auto simp: relen_def split: option.splits)

lemma dev_read_length:
  "dev_read i es (h, bufs, sizes) = (h', bufs', sizes') \<Longrightarrow>
   length bufs' = length bufs \<and> length sizes' = length sizes"
  by (induction i es "(h, bufs, sizes)" arbitrary: h bufs sizes rule: dev_read.induct)
     (auto split: if_splits)

lemma dev_read_addr_cap:
  "dev_read i es (h, bufs, sizes) = (h', bufs', sizes') \<Longrightarrow>
   map s_addr bufs' = map s_addr bufs \<and> map s_cap bufs' = map s_cap bufs"
  by (induction i es "(h, bufs, sizes)" arbitrary: h bufs sizes rule: dev_read.induct)
     (auto split: if_splits simp: map_update list_update_same_conv)

lemma dev_fill_other [simp]: "a \<noteq> s_addr b \<Longrightarrow> dev_fill h b d a = h a"
  by (simp add: dev_fill_def)

lemma dev_fill_same:
  "dev_fill h b d (s_addr b) j = (if j < min (s_len b) (length d) then d ! j else h (s_addr b) j)"
  by (simp add: dev_fill_def)

lemma slice_bytes_dev_fill:
  "s_addr c = s_addr b \<Longrightarrow> s_len c = length d \<Longrightarrow> length d \<le> s_len b \<Longrightarrow>
   slice_bytes (dev_fill h b d) c = d"
  by (auto simp: slice_bytes_def dev_fill_def intro!: nth_equalityI)

lemma slice_bytes_dev_fill_other:
  "s_addr c \<noteq> s_addr b \<Longrightarrow> slice_bytes (dev_fill h b d) c = slice_bytes h c"
  by (simp add: slice_bytes_def)

lemma slice_bytes_zero_at_other:
  "s_addr c \<noteq> a \<Longrightarrow> slice_bytes (zero_at h a) c = slice_bytes h c"
  by (simp add: slice_bytes_def zero_at_def)

lemma slice_bytes_copy_other:
  "s_addr c \<noteq> s_addr dst \<Longrightarrow> slice_bytes (copy_slice h dst src) c = slice_bytes h c"
  by (simp add: slice_bytes_def copy_slice_def)

lemma slice_bytes_copy:
  "s_addr c = s_addr dst \<Longrightarrow> s_addr src \<noteq> s_addr dst \<Longrightarrow> s_len c = s_len src \<Longrightarrow>
   s_len src \<le> s_len dst \<Longrightarrow> slice_bytes (copy_slice h dst src) c = slice_bytes h src"
  by (auto simp: slice_bytes_def copy_slice_def)

lemma read_failed_simps [simp]:
  "read_failed [] = False"
  "read_failed (e # es) = (failed_read e \<or> read_failed es)"
  "read_failed (xs @ ys) = (read_failed xs \<or> read_failed ys)"
  by (auto simp: read_failed_def)

lemma read_failed_write_event [simp]: "read_failed (write_event d k h b) = False"
  by (simp add: write_event_def Let_def)

lemma quiet_after_append:
  "\<not> read_failed es \<Longrightarrow> \<not> read_failed new \<Longrightarrow> quiet_after P (new @ es) = quiet_after P es"
  by (induction new) auto

lemma quiet_after_append_other:
  "\<forall>e \<in> set new. \<not> P e \<and> \<not> failed_read e \<Longrightarrow>
   quiet_after P (new @ es) = quiet_after P es"
  by (induction new) (auto simp: read_failed_def list_ex_iff)

lemma write_event_not_reader:
  "\<forall>e \<in> set (write_event d k h b). \<not> is_reader_call e \<and> \<not> failed_read e"
  by (simp add: write_event_def Let_def)

lemmas reader_defs = readToChannel_step_def reader_read_def reader_acquire_def reader_fill_def
  reader_send_def emit_def alloc_def panic_def

lemmas writer_defs = writeFromChannel_step_def writer_wait_def writer_collect_def
  writer_write_def writer_release_def writer_store_def emit_def panic_def

section \<open>A failed Read\<close>

text \<open>
  The invariant of \<open>forward\<close>: nothing is read or written after a failed \<open>Read\<close>, and
  the task has returned exactly when a \<open>Read\<close> has failed.
\<close>

definition fwd_quiet :: "fwd_state \<Rightarrow> bool" where
  "fwd_quiet s = (quiet_after is_io (f_events s) \<and>
                  (read_failed (f_events s) = (f_status s = Exited)))"

text \<open>The same for the reader task of the queued pipeline.\<close>

definition rd_quiet :: "qstate \<Rightarrow> bool" where
  "rd_quiet s = (quiet_after is_reader_call (q_events s) \<and>
                 (read_failed (q_events s) = (q_rpc s = R_Stopped)))"


lemma forward_iter_quiet:
  assumes "fwd_quiet s" "f_status s = Running"
  shows "fwd_quiet (forward_iter s)"
proof -
  from assms have nf: "\<not> read_failed (f_events s)" and q: "quiet_after is_io (f_events s)"
    by (auto simp: fwd_quiet_def)
  show ?thesis
    using nf q assms(2)
    by (auto simp: fwd_quiet_def forward_iter_def Let_def quiet_after_append
             split: option.splits list.splits prod.splits)
qed

lemma forward_quiet: "fwd_quiet s \<Longrightarrow> fwd_quiet (forward k s)"
  by (induction k arbitrary: s) (auto simp: forward_iter_quiet)

lemma forward_init_quiet: "fwd_quiet (forward_init src dst)"
  by (simp add: fwd_quiet_def forward_init_def)

lemma reader_step_quiet: "rd_quiet s \<Longrightarrow> rd_quiet (readToChannel_step c s)"
  by (cases "q_rpc s")
     (auto simp: rd_quiet_def reader_defs Let_def split: option.splits list.splits prod.splits)

lemma writer_step_quiet: "rd_quiet s \<Longrightarrow> rd_quiet (writeFromChannel_step s)"
  by (cases "q_wpc s")
     (auto simp: rd_quiet_def writer_defs Let_def quiet_after_append_other
                 write_event_not_reader
           split: option.splits list.splits prod.splits if_splits)

lemma step_quiet:
  assumes "rd_quiet s"
  shows "rd_quiet (step a s)"
proof (cases "q_panicked s")
  case True
  then show ?thesis using assms by simp
next
  case False
  then show ?thesis
    using assms
    by (cases a)
       (simp_all add: reader_step_quiet writer_step_quiet,
        simp_all add: pool_drop_def pool_put_def rd_quiet_def)
qed

lemma exec_quiet: "rd_quiet s \<Longrightarrow> rd_quiet (exec sched s)"
  by (induction sched arbitrary: s) (auto simp: step_quiet simp del: step.simps)

lemma queued_init_quiet: "rd_quiet (queued_init p caps src dst)"
  by (simp add: rd_quiet_def queued_init_def)

text \<open>
  Claim C2, as it holds. In the package with the pooling switch a failed \<open>Read\<close> ends
  the task that made the call. For \<open>forward\<close>, after any number of iterations, no
  \<open>Read\<close> and no \<open>Write\<close> follows a failed \<open>Read\<close>, and the task has returned exactly
  when a \<open>Read\<close> has failed. For the reader of the queued pipeline, under every schedule
  and both settings of the pool, no \<open>Read\<close>, no pool \<open>Get\<close> and no channel send
  follows a failed \<open>Read\<close>, and the reader has returned exactly when a \<open>Read\<close> has
  failed. (The \<open>forward\<close> of the batch-only package is not covered: it logs the error
  and calls \<open>Read\<close> again.)
\<close>

theorem C2_read_failure_ends_task:
  "quiet_after is_io (f_events (forward k (forward_init src dst))) \<and>
   read_failed (f_events (forward k (forward_init src dst)))
     = (f_status (forward k (forward_init src dst)) = Exited) \<and>
   quiet_after is_reader_call (q_events (exec sched (queued_init p caps src dst))) \<and>
   read_failed (q_events (exec sched (queued_init p caps src dst)))
     = (q_rpc (exec sched (queued_init p caps src dst)) = R_Stopped)"
  using forward_quiet [OF forward_init_quiet, of k src dst]
        exec_quiet [OF queued_init_quiet, of sched p caps src dst]
  by (simp add: fwd_quiet_def rd_quiet_def)

text \<open>
  Claim C2 as stated fails on the \<open>forward\<close> of the batch-only package: when the first
  \<open>Read\<close> fails the loop logs the error and continues; two iterations give a failed
  \<open>Read\<close>, the log line, a second \<open>Read\<close> and a \<open>Write\<close> of the packet it returned.
\<close>

theorem C2_forward1_retries_after_failed_read:
  "f_events (forward1 (Suc (Suc 0)) (forward1_init src_fail_then_one dst_accept)) =
     [EvWrite [[0, 0, 0, 0, 0, 0, 0, 0, 0, 0, 7]] 1 False,
      EvRead (replicate 128 65545) 1 False,
      EvLog LogReadError,
      EvRead (replicate 128 65545) 0 True]"
  by (simp add: forward1_init_def forward1_iter_def src_fail_then_one_def pkt7_def dst_accept_def bufLen1_def
        Let_def relen_def int64_def offset_def reslice_def make_slice_def take1_update
        write_event_def slice_bytes_dev_fill)

section \<open>The pooling switch without the queued pipeline\<close>

text \<open>
  Claim C9, as it holds. With \<open>useChannel\<close> false the two runs that differ in
  \<open>usePool\<close> start the same goroutines (two \<open>forward\<close> tasks, which take no pool),
  leave \<open>packetBufferPool\<close> nil and log the same lines after the first; the first line
  logged prints both switches.
\<close>

theorem C9_usePool_only_in_first_log_line:
  "r_tasks (Run False p) = r_tasks (Run False q) \<and>
   r_tasks (Run False p) = [GoForward Tun1 Tun2, GoForward Tun2 Tun1] \<and>
   r_pool (Run False p) = None \<and> r_pool (Run False q) = None \<and>
   r_chans (Run False p) = r_chans (Run False q) \<and>
   tl (r_log (Run False p)) = tl (r_log (Run False q)) \<and>
   hd (r_log (Run False p)) = LogStarting False p"
  by (simp add: Run_def Let_def)

text \<open>
  Claim C9 as stated fails: the two runs are not identical, since \<open>Run\<close> logs the value
  of \<open>usePool\<close> before it selects the strategy.
\<close>

theorem C9_runs_differ_in_log: "Run False True \<noteq> Run False False"
  by (simp add: Run_def Let_def)

section \<open>One iteration of \<open>forward\<close>\<close>

text \<open>What holds of the arrays of \<open>forward\<close> at the head of the loop.\<close>

definition fwd_wf :: "fwd_state \<Rightarrow> bool" where
  "fwd_wf s = (length (f_bufs s) = batchSize \<and> length (f_sizes s) = batchSize \<and>
               length (f_outBufs s) = batchSize \<and>
               list_all (\<lambda>b. s_cap b = maxPktSize) (f_bufs s))"

text \<open>The first \<open>n\<close> buffers, each resliced to \<open>[0, sizes[i] + offset)\<close>.\<close>

definition resliced :: "slice list \<Rightarrow> int list \<Rightarrow> nat \<Rightarrow> slice list" where
  "resliced bufs sizes n = map (\<lambda>i. (bufs ! i)\<lparr>s_len := nat (sizes ! i + int offset)\<rparr>) [0..<n]"

lemma out_loop_length:
  "out_loop k i bufs sizes outs = Some outs' \<Longrightarrow> length outs' = length outs"
  by (induction k arbitrary: i outs) (auto split: if_splits option.splits)

lemma out_loop_Some:
  assumes "i + k \<le> length bufs" "length sizes = length bufs" "length outs = length bufs"
    and "\<forall>j. i \<le> j \<and> j < i + k \<longrightarrow> 0 \<le> sizes ! j + int offset \<and> sizes ! j + int offset \<le> int (s_cap (bufs ! j)) \<and> sizes ! j + int offset < 2 ^ 63"
  shows "\<exists>outs'. out_loop k i bufs sizes outs = Some outs' \<and> length outs' = length outs \<and>
           (\<forall>j < i. outs' ! j = outs ! j) \<and>
           (\<forall>j. i \<le> j \<and> j < i + k \<longrightarrow> outs' ! j = (bufs ! j)\<lparr>s_len := nat (sizes ! j + int offset)\<rparr>)"
  using assms
proof (induction k arbitrary: i outs)
  case 0
  then show ?case by simp
next
  case (Suc k)
  let ?b = "(bufs ! i)\<lparr>s_len := nat (sizes ! i + int offset)\<rparr>"
  have b: "0 \<le> sizes ! i + int offset \<and> sizes ! i + int offset \<le> int (s_cap (bufs ! i)) \<and>
           sizes ! i + int offset < 2 ^ 63"
    using Suc.prems(4) by simp
  then have "int64 (sizes ! i + int offset) = sizes ! i + int offset"
    by (intro int64_id) auto
  then have r: "reslice (bufs ! i) (int64 (sizes ! i + int offset)) = Some ?b"
    using b by (simp add: reslice_def)
  have "\<exists>outs'. out_loop k (Suc i) bufs sizes (outs[i := ?b]) = Some outs' \<and> length outs' = length (outs[i := ?b]) \<and>
           (\<forall>j < Suc i. outs' ! j = (outs[i := ?b]) ! j) \<and>
           (\<forall>j. Suc i \<le> j \<and> j < Suc i + k \<longrightarrow> outs' ! j = (bufs ! j)\<lparr>s_len := nat (sizes ! j + int offset)\<rparr>)"
    using Suc.prems by (intro Suc.IH) auto
  then obtain outs' where o: "out_loop k (Suc i) bufs sizes (outs[i := ?b]) = Some outs'"
     "length outs' = length outs" "\<forall>j < Suc i. outs' ! j = (outs[i := ?b]) ! j"
     "\<forall>j. Suc i \<le> j \<and> j < Suc i + k \<longrightarrow> outs' ! j = (bufs ! j)\<lparr>s_len := nat (sizes ! j + int offset)\<rparr>"
    by auto
  have "out_loop (Suc k) i bufs sizes outs = Some outs'"
    using Suc.prems r o(1) by simp
  moreover have "\<forall>j < i. outs' ! j = outs ! j" using o(3) by auto
  moreover have "\<forall>j. i \<le> j \<and> j < i + Suc k \<longrightarrow> outs' ! j = (bufs ! j)\<lparr>s_len := nat (sizes ! j + int offset)\<rparr>"
  proof (intro allI impI)
    fix j assume j: "i \<le> j \<and> j < i + Suc k"
    show "outs' ! j = (bufs ! j)\<lparr>s_len := nat (sizes ! j + int offset)\<rparr>"
    proof (cases "j = i")
      case True
      then show ?thesis using o(3) Suc.prems by simp
    next
      case False
      then show ?thesis using o(4) j by simp
    qed
  qed
  ultimately show ?case using o(2) by blast
qed

lemma out_loop_take:
  assumes "n \<le> length bufs" "length sizes = length bufs" "length outs = length bufs"
    and "\<forall>j < n. 0 \<le> sizes ! j + int offset \<and> sizes ! j + int offset \<le> int (s_cap (bufs ! j))"
    and "\<forall>b \<in> set bufs. s_cap b < 2 ^ 62"
  shows "\<exists>outs'. out_loop n 0 bufs sizes outs = Some outs' \<and> length outs' = length outs \<and>
           take n outs' = resliced bufs sizes n"
proof -
  have "\<forall>j. 0 \<le> j \<and> j < 0 + n \<longrightarrow> 0 \<le> sizes ! j + int offset \<and> sizes ! j + int offset \<le> int (s_cap (bufs ! j)) \<and> sizes ! j + int offset < 2 ^ 63"
  proof (intro allI impI)
    fix j assume j: "0 \<le> j \<and> j < 0 + n"
    then have "bufs ! j \<in> set bufs" using assms(1) by simp
    then have "int (s_cap (bufs ! j)) < 2 ^ 62" using assms(5) by auto
    then show "0 \<le> sizes ! j + int offset \<and> sizes ! j + int offset \<le> int (s_cap (bufs ! j)) \<and> sizes ! j + int offset < 2 ^ 63"
      using assms(4) j by auto
  qed
  from out_loop_Some [OF _ assms(2,3) this] assms(1)
  obtain outs' where o: "out_loop n 0 bufs sizes outs = Some outs'" "length outs' = length outs"
     "\<forall>j. 0 \<le> j \<and> j < 0 + n \<longrightarrow> outs' ! j = (bufs ! j)\<lparr>s_len := nat (sizes ! j + int offset)\<rparr>"
    by auto
  have "take n outs' = resliced bufs sizes n"
    using o(2,3) assms(1,3) by (auto simp: resliced_def intro!: nth_equalityI)
  then show ?thesis using o by blast
qed


lemma list_all_cap_map: "list_all (\<lambda>b. s_cap b = c) bs = (\<forall>x \<in> set (map s_cap bs). x = c)"
  by (auto simp: list_all_iff)

lemma forward_iter_wf:
  assumes "fwd_wf s"
  shows "fwd_wf (forward_iter s)"
proof (cases "reset_bufs (f_bufs s) (int bufLen)")
  case None
  then show ?thesis using assms by (simp add: forward_iter_def fwd_wf_def)
next
  case (Some bufs1)
  then have b1: "bufs1 = map (\<lambda>b. b\<lparr>s_len := nat (int bufLen)\<rparr>) (f_bufs s)"
    by (rule reset_bufs_SomeD)
  have wf1: "length bufs1 = batchSize" "list_all (\<lambda>b. s_cap b = maxPktSize) bufs1"
    using assms by (auto simp: b1 fwd_wf_def list_all_iff)
  show ?thesis
  proof (cases "f_src s")
    case Nil
    then show ?thesis using assms Some wf1 by (simp add: forward_iter_def fwd_wf_def)
  next
    case (Cons ro rest)
    obtain h bufs2 sizes2 where dr: "dev_read 0 (ro_effs ro) (f_heap s, bufs1, f_sizes s) = (h, bufs2, sizes2)"
      by (cases "dev_read 0 (ro_effs ro) (f_heap s, bufs1, f_sizes s)") auto
    have wf2: "length bufs2 = batchSize" "length sizes2 = batchSize"
        "list_all (\<lambda>b. s_cap b = maxPktSize) bufs2"
      using dev_read_length [OF dr] dev_read_addr_cap [OF dr] wf1 assms
      by (auto simp: fwd_wf_def list_all_cap_map)
    show ?thesis
      using assms Some Cons dr wf2
      by (auto simp: forward_iter_def fwd_wf_def Let_def dest: out_loop_length split: option.splits)
  qed
qed

lemma forward_wf: "fwd_wf s \<Longrightarrow> fwd_wf (forward k s)"
  by (induction k arbitrary: s) (auto simp: forward_iter_wf)

lemma forward_init_wf: "fwd_wf (forward_init src dst)"
  by (auto simp: fwd_wf_def forward_init_def list_all_iff dest: set_make_bufs)

lemma forward_iter_read_ok:
  assumes wf: "fwd_wf s" and src: "f_src s = ro # rest" and ok: "\<not> ro_err ro"
    and s': "s' = forward_iter s"
  shows "(ro_n ro = 0 \<longrightarrow>
            f_events s' = EvRead (replicate batchSize bufLen) 0 False # f_events s \<and>
            f_status s' = f_status s) \<and>
         (0 < ro_n ro \<and> ro_n ro \<le> int batchSize \<and>
          (\<forall>i < nat (ro_n ro). 0 \<le> f_sizes s' ! i \<and> f_sizes s' ! i \<le> 65535) \<longrightarrow>
            take (nat (ro_n ro)) (f_outBufs s') = resliced (f_bufs s') (f_sizes s') (nat (ro_n ro)) \<and>
            f_events s' =
              write_event (f_dst s) (f_nwrites s) (f_heap s')
                (resliced (f_bufs s') (f_sizes s') (nat (ro_n ro)))
              @ EvRead (replicate batchSize bufLen) (ro_n ro) False # f_events s \<and>
            f_status s' = f_status s)"
proof -
  have "reset_bufs (f_bufs s) (int bufLen) = Some (map (\<lambda>b. b\<lparr>s_len := nat (int bufLen)\<rparr>) (f_bufs s))"
    using wf by (intro reset_bufs_Some)
                (auto simp: fwd_wf_def list_all_iff bufLen_def maxPktSize_def mtuSize_def offset_def)
  then have "reset_bufs (f_bufs s) (int bufLen) = Some (map (\<lambda>b. b\<lparr>s_len := bufLen\<rparr>) (f_bufs s))"
    by simp
  then obtain bufs1 where r: "reset_bufs (f_bufs s) (int bufLen) = Some bufs1"
    and b1: "bufs1 = map (\<lambda>b. b\<lparr>s_len := bufLen\<rparr>) (f_bufs s)" by blast
  have wf1: "length bufs1 = batchSize" "list_all (\<lambda>b. s_cap b = maxPktSize) bufs1"
      "map s_len bufs1 = replicate batchSize bufLen"
    using wf by (auto simp: b1 fwd_wf_def list_all_iff comp_def map_replicate_const)
  obtain h bufs2 sizes2 where dr: "dev_read 0 (ro_effs ro) (f_heap s, bufs1, f_sizes s) = (h, bufs2, sizes2)"
    by (cases "dev_read 0 (ro_effs ro) (f_heap s, bufs1, f_sizes s)") auto
  have wf2: "length bufs2 = batchSize" "length sizes2 = batchSize"
      "list_all (\<lambda>b. s_cap b = maxPktSize) bufs2"
    using dev_read_length [OF dr] dev_read_addr_cap [OF dr] wf1 wf
    by (auto simp: fwd_wf_def list_all_cap_map)
  have zero: "ro_n ro = 0 \<longrightarrow>
            f_events s' = EvRead (replicate batchSize bufLen) 0 False # f_events s \<and>
            f_status s' = f_status s"
    using r src ok dr wf1 by (simp add: s' forward_iter_def)
  have pos: "take (nat (ro_n ro)) (f_outBufs s') = resliced (f_bufs s') (f_sizes s') (nat (ro_n ro)) \<and>
            f_events s' =
              write_event (f_dst s) (f_nwrites s) (f_heap s')
                (resliced (f_bufs s') (f_sizes s') (nat (ro_n ro)))
              @ EvRead (replicate batchSize bufLen) (ro_n ro) False # f_events s \<and>
            f_status s' = f_status s"
    if n: "0 < ro_n ro" "ro_n ro \<le> int batchSize"
      and sz: "\<forall>i < nat (ro_n ro). 0 \<le> f_sizes s' ! i \<and> f_sizes s' ! i \<le> 65535"
  proof -
    have fs: "f_sizes s' = sizes2" "f_bufs s' = bufs2" "f_heap s' = h"
      using r src ok dr n by (auto simp: s' forward_iter_def Let_def split: option.splits)
    have caps: "\<forall>b \<in> set bufs2. s_cap b = maxPktSize" using wf2 by (simp add: list_all_iff)
    have "\<exists>outs'. out_loop (nat (ro_n ro)) 0 bufs2 sizes2 (f_outBufs s) = Some outs' \<and>
             length outs' = length (f_outBufs s) \<and>
             take (nat (ro_n ro)) outs' = resliced bufs2 sizes2 (nat (ro_n ro))"
    proof (rule out_loop_take)
      show "nat (ro_n ro) \<le> length bufs2" using n wf2 by simp
      show "length sizes2 = length bufs2" using wf2 by simp
      show "length (f_outBufs s) = length bufs2" using wf wf2 by (simp add: fwd_wf_def)
      show "\<forall>j<nat (ro_n ro). 0 \<le> sizes2 ! j + int offset \<and> sizes2 ! j + int offset \<le> int (s_cap (bufs2 ! j))"
      proof (intro allI impI)
        fix j assume j: "j < nat (ro_n ro)"
        then have "bufs2 ! j \<in> set bufs2" using n wf2 by simp
        then have "s_cap (bufs2 ! j) = maxPktSize" using caps by simp
        then show "0 \<le> sizes2 ! j + int offset \<and> sizes2 ! j + int offset \<le> int (s_cap (bufs2 ! j))"
          using sz j fs by (auto simp: maxPktSize_def offset_def)
      qed
      show "\<forall>b\<in>set bufs2. s_cap b < 2 ^ 62" using caps by (simp add: maxPktSize_def offset_def)
    qed
    then obtain outs' where o: "out_loop (nat (ro_n ro)) 0 bufs2 sizes2 (f_outBufs s) = Some outs'"
      "length outs' = length (f_outBufs s)" "take (nat (ro_n ro)) outs' = resliced bufs2 sizes2 (nat (ro_n ro))"
      by blast
    have len: "length outs' = batchSize" using o(2) wf by (simp add: fwd_wf_def)
    show ?thesis
      using r src ok dr n o len wf1
      by (simp add: s' forward_iter_def Let_def)
  qed
  show ?thesis using zero pos by blast
qed


text \<open>
  Claim C7. Take \<open>forward\<close> at the head of its loop after any number of iterations,
  still running, and let the next \<open>Read\<close> succeed. If it returns count zero, the
  iteration consists of that \<open>Read\<close> alone and the loop goes on to the next one. If it
  returns a count \<open>n\<close> with \<open>0 < n \<le> batchSize\<close> and sizes within the buffers, the
  first \<open>n\<close> entries of \<open>outBufs\<close> are the first \<open>n\<close> read buffers, each resliced to
  \<open>[0, sizes[i] + offset)\<close>, and the iteration issues, after the \<open>Read\<close>, exactly the
  one \<open>Write\<close> of these buffers (a failed \<open>Write\<close> is logged); the loop goes on.
\<close>

theorem C7_forward_iteration:
  assumes "s = forward k (forward_init src dst)" and "f_status s = Running"
    and "f_src s = ro # rest" and "\<not> ro_err ro" and "s' = forward_iter s"
  shows "(ro_n ro = 0 \<longrightarrow>
            f_events s' = EvRead (replicate batchSize bufLen) 0 False # f_events s \<and>
            f_status s' = Running) \<and>
         (0 < ro_n ro \<and> ro_n ro \<le> int batchSize \<and>
          (\<forall>i < nat (ro_n ro). 0 \<le> f_sizes s' ! i \<and> f_sizes s' ! i \<le> 65535) \<longrightarrow>
            take (nat (ro_n ro)) (f_outBufs s') = resliced (f_bufs s') (f_sizes s') (nat (ro_n ro)) \<and>
            f_events s' =
              write_event (f_dst s) (f_nwrites s) (f_heap s')
                (resliced (f_bufs s') (f_sizes s') (nat (ro_n ro)))
              @ EvRead (replicate batchSize bufLen) (ro_n ro) False # f_events s \<and>
            f_status s' = Running)"
proof -
  have "fwd_wf s" unfolding assms(1) by (rule forward_wf [OF forward_init_wf])
  from forward_iter_read_ok [OF this assms(3,4,5)] assms(2) show ?thesis by simp
qed

lemmas fwd_eval = slice_bytes_dev_fill_other forward_init_def forward_iter_def
        Let_def relen_def int64_def offset_def reslice_def make_slice_def take1_update
        write_event_def slice_bytes_dev_fill bufLen_def mtuSize_def batchSize_def maxPktSize_def

lemma reset_bufs_make_bufs_le [simp]:
  "0 \<le> m \<Longrightarrow> m \<le> int n \<Longrightarrow>
   reset_bufs (make_bufs k a n) m = Some (map (\<lambda>b. b\<lparr>s_len := nat m\<rparr>) (make_bufs k a n))"
  by (rule reset_bufs_Some) (auto dest: set_make_bufs)

lemma C7_sizes: "f_sizes (forward_iter (forward_init src_two_packets dst)) = (replicate 128 0)[0 := 1, Suc 0 := 2]"
  by (simp add: fwd_eval src_two_packets_def pkt7_def pkt89_def numeral_2_eq_2)

text \<open>Both cases of C7 on the two inputs, from the initial state.\<close>

theorem C7_forward_iteration_witness:
  "f_events (forward_iter (forward_init src_empty_read dst_accept)) = [EvRead (replicate 128 1510) 0 False] \<and>
   f_status (forward_iter (forward_init src_empty_read dst_accept)) = Running \<and>
   take 2 (f_outBufs (forward_iter (forward_init src_two_packets dst_accept)))
     = [\<lparr>s_addr = 1, s_len = 11, s_cap = 65545\<rparr>, \<lparr>s_addr = 2, s_len = 12, s_cap = 65545\<rparr>] \<and>
   f_events (forward_iter (forward_init src_two_packets dst_accept))
     = [EvWrite [[0, 0, 0, 0, 0, 0, 0, 0, 0, 0, 7], [0, 0, 0, 0, 0, 0, 0, 0, 0, 0, 8, 9]] 2 False,
        EvRead (replicate 128 1510) 2 False]"
proof -
  let ?z = "forward_init src_empty_read dst_accept" and ?t = "forward_init src_two_packets dst_accept"
  have z: "f_events (forward_iter ?z) = EvRead (replicate batchSize bufLen) 0 False # f_events ?z \<and>
           f_status (forward_iter ?z) = Running"
    using C7_forward_iteration [of ?z 0 src_empty_read dst_accept "\<lparr>ro_n = 0, ro_err = False, ro_effs = []\<rparr>" "[]" "forward_iter ?z"]
    by (simp add: forward_init_def src_empty_read_def)
  have hyp: "\<forall>i < nat 2. 0 \<le> f_sizes (forward_iter ?t) ! i \<and> f_sizes (forward_iter ?t) ! i \<le> 65535"
    by (simp add: C7_sizes less_Suc_eq numeral_2_eq_2)
  have p: "take (nat 2) (f_outBufs (forward_iter ?t)) = resliced (f_bufs (forward_iter ?t)) (f_sizes (forward_iter ?t)) (nat 2) \<and>
            f_events (forward_iter ?t) =
              write_event (f_dst ?t) (f_nwrites ?t) (f_heap (forward_iter ?t))
                (resliced (f_bufs (forward_iter ?t)) (f_sizes (forward_iter ?t)) (nat 2))
              @ EvRead (replicate batchSize bufLen) 2 False # f_events ?t"
    using C7_forward_iteration [of ?t 0 src_two_packets dst_accept "hd src_two_packets" "[]" "forward_iter ?t"] hyp
    by (simp add: forward_init_def src_two_packets_def batchSize_def)
  show ?thesis
    using z p
    apply (simp add: bufLen_def mtuSize_def offset_def batchSize_def)
    apply (simp add: fwd_eval src_two_packets_def src_empty_read_def pkt7_def pkt89_def dst_accept_def resliced_def
             numeral_2_eq_2)
    done
qed

section \<open>The batches of the writer\<close>

text \<open>
  What the claim says of the writer, as a monitor over its events. The monitor is idle
  while the writer holds no packet; a blocking receive makes it hold one; while it holds
  \<open>n < batchSize\<close> packets a poll that finds a packet makes it hold one more and a poll
  that finds the channel empty makes it ready to write \<open>n\<close>; a \<open>Write\<close> is accepted
  when the monitor is ready to write exactly that many buffers, or holds \<open>batchSize\<close>,
  and makes it idle again. Everything else (a blocking receive while packets are held,
  a poll with \<open>batchSize\<close> packets held or after an empty poll, a \<open>Write\<close> of another
  size) is a violation.
\<close>

datatype mon = M_Idle | M_Holding nat | M_Ready nat | M_Bad

fun mon_step :: "event \<Rightarrow> mon \<Rightarrow> mon" where
  "mon_step EvRecv m = (case m of M_Idle \<Rightarrow> M_Holding 1 | _ \<Rightarrow> M_Bad)"
| "mon_step (EvPoll found) m =
     (case m of
        M_Holding n \<Rightarrow>
          if n < batchSize then (if found then M_Holding (Suc n) else M_Ready n) else M_Bad
      | _ \<Rightarrow> M_Bad)"
| "mon_step (EvWrite bs c e) m =
     (case m of
        M_Holding n \<Rightarrow> if n = batchSize \<and> length bs = n then M_Idle else M_Bad
      | M_Ready n \<Rightarrow> if length bs = n then M_Idle else M_Bad
      | _ \<Rightarrow> M_Bad)"
| "mon_step _ m = m"

fun monitor :: "event list \<Rightarrow> mon" where
  "monitor [] = M_Idle"
| "monitor (e # es) = mon_step e (monitor es)"

fun write_size_ok :: "event \<Rightarrow> bool" where
  "write_size_ok (EvWrite bs c e) = (1 \<le> length bs \<and> length bs \<le> batchSize)"
| "write_size_ok _ = True"

text \<open>The control point of the writer agrees with the monitor.\<close>

definition wmatch :: "qstate \<Rightarrow> bool" where
  "wmatch s =
     (case q_wpc s of
        W_Wait \<Rightarrow> monitor (q_events s) = M_Idle
      | W_Collect n \<Rightarrow> monitor (q_events s) = M_Holding n \<and> 1 \<le> n \<and> n < batchSize
      | W_Write n \<Rightarrow> (monitor (q_events s) = M_Ready n \<or>
                       monitor (q_events s) = M_Holding n \<and> n = batchSize) \<and>
                      1 \<le> n \<and> n \<le> batchSize
      | W_Release i n \<Rightarrow> monitor (q_events s) = M_Idle)"

definition winv :: "qstate \<Rightarrow> bool" where
  "winv s = (monitor (q_events s) \<noteq> M_Bad \<and> list_all write_size_ok (q_events s) \<and>
             length (q_bufs s) = batchSize \<and> (q_panicked s \<or> wmatch s))"

lemmas q_eval = queued_init_def reader_defs writeFromChannel_step_def writer_wait_def
  writer_collect_def writer_write_def writer_release_def writer_store_def Let_def relen_def int64_def offset_def
  reslice_def make_slice_def write_event_def mtuSize_def batchSize_def maxPktSize_def chanCap_def
  after_store_def remove_nth_def nil_slice_def take1_update
  slice_bytes_dev_fill slice_bytes_dev_fill_other slice_bytes_zero_at_other
  slice_bytes_copy_other slice_bytes_copy pkt7_def pkt89_def pkt200_def dst_accept_def

lemma monitor_write_event:
  "monitor (write_event d k h b @ es) = mon_step (EvWrite (map (slice_bytes h) b) 0 False) (monitor es)"
  by (simp add: write_event_def Let_def split: mon.splits)

lemma write_size_ok_write_event:
  "list_all write_size_ok (write_event d k h b) = (1 \<le> length b \<and> length b \<le> batchSize)"
  by (simp add: write_event_def Let_def)

lemma reader_step_winv: "winv s \<Longrightarrow> winv (readToChannel_step c s)"
  by (cases "q_rpc s")
     (auto simp: winv_def wmatch_def reader_defs Let_def split: option.splits list.splits prod.splits wpc.splits)

lemma writer_step_winv: "winv s \<Longrightarrow> \<not> q_panicked s \<Longrightarrow> winv (writeFromChannel_step s)"
  by (cases "q_wpc s")
     (auto simp: winv_def wmatch_def writer_defs Let_def after_store_def monitor_write_event
                 write_size_ok_write_event batchSize_def
           split: option.splits list.splits prod.splits if_splits)

lemma step_winv:
  assumes "winv s"
  shows "winv (step a s)"
proof (cases "q_panicked s")
  case True
  then show ?thesis using assms by simp
next
  case False
  then show ?thesis
    using assms
    by (cases a)
       (simp_all add: reader_step_winv writer_step_winv,
        auto simp: pool_drop_def pool_put_def winv_def wmatch_def split: wpc.splits)
qed

lemma exec_winv: "winv s \<Longrightarrow> winv (exec sched s)"
  by (induction sched arbitrary: s) (auto simp: step_winv simp del: step.simps)

lemma queued_init_winv: "winv (queued_init p caps src dst)"
  by (simp add: winv_def wmatch_def queued_init_def)

lemma collect_never_waits:
  "q_wpc s = W_Collect n \<Longrightarrow>
   q_events (writeFromChannel_step s) = EvPoll (q_chan s \<noteq> []) # q_events s"
  by (auto simp: writer_defs split: list.splits option.splits)

text \<open>The reader has read and queued one packet, the writer has taken it.\<close>

definition sched_first_packet :: "action list" where
  "sched_first_packet = [ActReader 0, ActReader 0, ActReader 0, ActReader 0, ActWriter]"

text \<open>
  Claim C4. Under every schedule, for every source and destination and both settings of
  the pool, the events of the writer never violate the monitor, every \<open>Write\<close> has
  between 1 and \<open>batchSize\<close> buffers, and whenever the writer stands at the
  \<open>select\<close> its step is a poll that completes at once, whether or not the channel
  holds a packet.
\<close>

theorem C4_writer_batches:
  assumes "t = exec sched (queued_init p caps src dst)"
  shows "monitor (q_events t) \<noteq> M_Bad \<and> list_all write_size_ok (q_events t) \<and>
         (q_wpc t = W_Collect n \<longrightarrow>
            q_events (writeFromChannel_step t) = EvPoll (q_chan t \<noteq> []) # q_events t)"
  using exec_winv [OF queued_init_winv, of sched p caps src dst] collect_never_waits [of t n]
  by (simp add: assms winv_def)

text \<open>C4 at the state where the writer holds the only packet and the channel is empty.\<close>

theorem C4_writer_batches_witness:
  "q_wpc (exec sched_first_packet (queued_init True [] src_one_200 dst_accept)) = W_Collect 1 \<and>
   monitor (q_events (exec sched_first_packet (queued_init True [] src_one_200 dst_accept)))
     = M_Holding 1 \<and>
   q_events (writeFromChannel_step
               (exec sched_first_packet (queued_init True [] src_one_200 dst_accept)))
     = EvPoll False # q_events (exec sched_first_packet (queued_init True [] src_one_200 dst_accept))"
proof -
  let ?t = "exec sched_first_packet (queued_init True [] src_one_200 dst_accept)"
  have w: "q_wpc ?t = W_Collect 1" and c: "q_chan ?t = []"
    by (simp_all add: sched_first_packet_def src_one_200_def q_eval)
  have m: "monitor (q_events ?t) = M_Holding 1"
    by (simp add: sched_first_packet_def src_one_200_def q_eval)
  from C4_writer_batches [of ?t sched_first_packet True "[]" src_one_200 dst_accept 1] w c m
  show ?thesis by simp
qed

section \<open>The read buffers of the reader\<close>

text \<open>Two packets through the pipeline, one after the other.\<close>

definition sched_two_reads :: "action list" where
  "sched_two_reads = [ActReader 0, ActReader 0, ActReader 0, ActReader 0, ActWriter, ActWriter, ActWriter,
                      ActReader 0, ActReader 0, ActReader 0, ActReader 0, ActWriter, ActWriter, ActWriter]"

text \<open>
  Claim C5 on the code, with a Device that truncates the buffers it fills.
  \<open>readToChannel\<close> has no reset loop: its second \<open>Read\<close> is handed \<open>readBufs[0]\<close> with
  the length 11 the first \<open>Read\<close> left, so only 11 bytes of the second packet are
  stored and the packet reaches the destination with its last byte missing.
  (\<open>forward\<close> hands every \<open>Read\<close> buffers of length \<open>bufLen\<close>, see C7.)
\<close>

theorem C5_reader_passes_truncated_buffers:
  "q_events (exec sched_two_reads (queued_init False [] src_truncating dst_accept)) =
     [EvWrite [[0, 0, 0, 0, 0, 0, 0, 0, 0, 0, 8, 0]] 1 False,
      EvPoll False,
      EvRecv,
      EvSend,
      EvRead ((replicate 128 1510)[0 := 11]) 1 False,
      EvWrite [[0, 0, 0, 0, 0, 0, 0, 0, 0, 0, 7]] 1 False,
      EvPoll False,
      EvRecv,
      EvSend,
      EvRead (replicate 128 1510) 1 False]"
  by (simp add: sched_two_reads_def src_truncating_def q_eval map_update
        slice_bytes_def dev_fill_def copy_slice_def zero_at_def upt_rec)

section \<open>The fallback without pooling\<close>

text \<open>
  The contract of a source towards buffers of length \<open>mtuSize + offset\<close>: every size
  it stores is an \<open>int\<close> of at most \<open>mtuSize\<close>.
\<close>

definition size_in_mtu :: "int \<Rightarrow> bool" where
  "size_in_mtu x = (- (2 ^ 63) \<le> x \<and> x \<le> int mtuSize)"

definition sizes_in_mtu :: "src_device \<Rightarrow> bool" where
  "sizes_in_mtu src = list_all (\<lambda>ro. list_all (\<lambda>e. size_in_mtu (ef_size e)) (ro_effs ro)) src"

text \<open>The buffer the reader holds is one it made with \<open>make([]byte, maxPktSize)\<close>.\<close>

fun fresh_rpc :: "rpc \<Rightarrow> bool" where
  "fresh_rpc (R_Fill i b) = (s_cap b = maxPktSize)"
| "fresh_rpc (R_Send i pkt) = (s_cap (buf pkt) = maxPktSize)"
| "fresh_rpc _ = True"

definition nofallback :: "qstate \<Rightarrow> bool" where
  "nofallback s = (\<not> q_usePool s \<and> sizes_in_mtu (q_src s) \<and> list_all size_in_mtu (q_sizes s) \<and>
                   length (q_sizes s) = batchSize \<and>
                   fresh_rpc (q_rpc s) \<and> list_all (\<lambda>p. s_cap (buf p) = maxPktSize) (q_chan s) \<and>
                   EvLog LogBufferTooSmall \<notin> set (q_events s))"

lemma list_all_update: "list_all P xs \<Longrightarrow> P x \<Longrightarrow> list_all P (xs[i := x])"
  using set_update_subset_insert [of xs i x] by (auto simp: list_all_iff)

lemma dev_read_sizes:
  "list_all size_in_mtu sizes \<Longrightarrow> list_all (\<lambda>e. size_in_mtu (ef_size e)) es \<Longrightarrow>
   dev_read i es (h, bufs, sizes) = (h', bufs', sizes') \<Longrightarrow> list_all size_in_mtu sizes'"
  by (induction i es "(h, bufs, sizes)" arbitrary: h bufs sizes rule: dev_read.induct)
     (auto split: if_splits simp: list_all_update)

lemma size_in_mtu_bound:
  "size_in_mtu x \<Longrightarrow> int64 (x + int offset) \<le> int (mtuSize + offset)"
proof -
  assume a: "size_in_mtu x"
  have "int64 (x + int offset) = x + int offset \<or> int64 (x + int offset) \<le> 0"
  proof (cases "- (2 ^ 63) \<le> x + int offset \<and> x + int offset < 2 ^ 63")
    case True
    then show ?thesis by (simp add: int64_id)
  next
    case False
    then show ?thesis using a by (auto simp: size_in_mtu_def offset_def mtuSize_def)
  qed
  then show ?thesis using a by (auto simp: size_in_mtu_def)
qed

lemma reader_step_nofallback: "nofallback s \<Longrightarrow> nofallback (readToChannel_step c s)"
proof (cases "q_rpc s")
  case R_Read
  assume n: "nofallback s"
  show ?thesis
  proof (cases "q_src s")
    case Nil
    then show ?thesis using n R_Read by (simp add: readToChannel_step_def reader_read_def)
  next
    case (Cons ro rest)
    obtain h bufs2 sizes2 where dr: "dev_read 0 (ro_effs ro) (q_heap s, q_readBufs s, q_sizes s) = (h, bufs2, sizes2)"
      by (cases "dev_read 0 (ro_effs ro) (q_heap s, q_readBufs s, q_sizes s)") auto
    have "list_all size_in_mtu sizes2"
      using dev_read_sizes [OF _ _ dr] n Cons by (simp add: nofallback_def sizes_in_mtu_def)
    moreover have "length sizes2 = length (q_sizes s)" using dev_read_length [OF dr] by simp
    ultimately show ?thesis
      using n R_Read Cons dr
      by (auto simp: nofallback_def readToChannel_step_def reader_read_def emit_def Let_def sizes_in_mtu_def)
  qed
next
  case (R_Acquire i)
  assume n: "nofallback s"
  then show ?thesis using R_Acquire
    by (auto simp: nofallback_def readToChannel_step_def reader_acquire_def emit_def alloc_def make_slice_def)
next
  case (R_Fill i b)
  assume n: "nofallback s"
  show ?thesis
  proof (cases "i < length (q_sizes s) \<and> i < length (q_readBufs s)")
    case True
    then have "size_in_mtu (q_sizes s ! i)" using n by (auto simp: nofallback_def list_all_iff)
    then have "int64 (q_sizes s ! i + int offset) \<le> int (mtuSize + offset)" by (rule size_in_mtu_bound)
    moreover have "s_cap b = maxPktSize" using n R_Fill by (simp add: nofallback_def)
    ultimately have "\<not> int (s_cap b) < int64 (q_sizes s ! i + int offset)"
      by (simp add: maxPktSize_def mtuSize_def offset_def)
    then show ?thesis using n R_Fill True
      by (auto simp: nofallback_def readToChannel_step_def reader_fill_def emit_def panic_def Let_def
               split: option.splits)
  next
    case False
    then show ?thesis using n R_Fill
      by (auto simp: nofallback_def readToChannel_step_def reader_fill_def panic_def)
  qed
next
  case (R_Send i pkt)
  assume n: "nofallback s"
  then show ?thesis using R_Send
    by (auto simp: nofallback_def readToChannel_step_def reader_send_def emit_def)
next
  case R_Stopped
  assume n: "nofallback s"
  then show ?thesis using R_Stopped by (simp add: readToChannel_step_def)
qed

lemma write_event_no_warning: "EvLog LogBufferTooSmall \<notin> set (write_event d k h b)"
  by (simp add: write_event_def Let_def)

lemma writer_step_nofallback: "nofallback s \<Longrightarrow> nofallback (writeFromChannel_step s)"
  by (cases "q_wpc s")
     (auto simp: nofallback_def writer_defs Let_def write_event_no_warning
           split: option.splits list.splits if_splits)

lemma step_nofallback:
  assumes "nofallback s"
  shows "nofallback (step a s)"
  using assms
  by (cases a)
     (auto simp: reader_step_nofallback writer_step_nofallback pool_drop_def pool_put_def,
      auto simp: nofallback_def)

lemma exec_nofallback: "nofallback s \<Longrightarrow> nofallback (exec sched s)"
  by (induction sched arbitrary: s) (auto simp: step_nofallback simp del: step.simps)

lemma queued_init_nofallback: "sizes_in_mtu src \<Longrightarrow> nofallback (queued_init False caps src dst)"
  by (simp add: nofallback_def queued_init_def size_in_mtu_def list_all_iff)

text \<open>The reader has read and holds a new buffer.\<close>

definition sched_get :: "action list" where
  "sched_get = [ActReader 0, ActReader 0]"

text \<open>
  Claim C10. With pooling disabled and a source that keeps the sizes within \<open>mtuSize\<close>,
  under every schedule the warning of the fallback branch is never logged; whenever the
  reader is about to size-check a buffer, that buffer has capacity \<open>maxPktSize\<close>, the
  required size \<open>sizes[i] + offset\<close> is at most \<open>mtuSize + offset\<close>, and the test
  \<open>cap(pktBuf) < size\<close> is false.
\<close>

theorem C10_fallback_unreachable_without_pool:
  assumes "sizes_in_mtu src" and "t = exec sched (queued_init False caps src dst)"
  shows "EvLog LogBufferTooSmall \<notin> set (q_events t) \<and>
         (q_rpc t = R_Fill i b \<longrightarrow>
            s_cap b = maxPktSize \<and>
            (i < batchSize \<longrightarrow> int64 (q_sizes t ! i + int offset) \<le> int (mtuSize + offset)) \<and>
            (i < batchSize \<longrightarrow> \<not> int (s_cap b) < int64 (q_sizes t ! i + int offset)))"
proof -
  have n: "nofallback t"
    unfolding assms(2) by (rule exec_nofallback [OF queued_init_nofallback [OF assms(1)]])
  have "s_cap b = maxPktSize \<and>
        (i < batchSize \<longrightarrow> int64 (q_sizes t ! i + int offset) \<le> int (mtuSize + offset)) \<and>
        (i < batchSize \<longrightarrow> \<not> int (s_cap b) < int64 (q_sizes t ! i + int offset))"
    if r: "q_rpc t = R_Fill i b"
  proof -
    have c: "s_cap b = maxPktSize" using n r by (simp add: nofallback_def)
    have "int64 (q_sizes t ! i + int offset) \<le> int (mtuSize + offset)" if "i < batchSize"
    proof -
      have "size_in_mtu (q_sizes t ! i)" using n that by (auto simp: nofallback_def list_all_iff)
      then show ?thesis by (rule size_in_mtu_bound)
    qed
    then show ?thesis using c by (auto simp: maxPktSize_def mtuSize_def offset_def)
  qed
  then show ?thesis using n by (auto simp: nofallback_def)
qed

text \<open>C10 at the state where the reader holds the buffer for a packet of 200 bytes.\<close>

theorem C10_fallback_unreachable_without_pool_witness:
  "sizes_in_mtu src_one_200 \<and>
   q_rpc (exec sched_get (queued_init False [] src_one_200 dst_accept))
     = R_Fill 0 \<lparr>s_addr = 129, s_len = 65545, s_cap = 65545\<rparr> \<and>
   int64 (q_sizes (exec sched_get (queued_init False [] src_one_200 dst_accept)) ! 0 + int offset) \<le> 1510 \<and>
   EvLog LogBufferTooSmall \<notin> set (q_events (exec sched_get (queued_init False [] src_one_200 dst_accept)))"
proof -
  let ?t = "exec sched_get (queued_init False [] src_one_200 dst_accept)"
  have h: "sizes_in_mtu src_one_200"
    by (simp add: sizes_in_mtu_def size_in_mtu_def src_one_200_def pkt200_def mtuSize_def)
  have r: "q_rpc ?t = R_Fill 0 \<lparr>s_addr = 129, s_len = 65545, s_cap = 65545\<rparr>"
    by (simp add: sched_get_def src_one_200_def q_eval)
  from C10_fallback_unreachable_without_pool
         [OF h refl, where sched = sched_get and caps = "[]" and dst = dst_accept and i = 0
            and b = "\<lparr>s_addr = 129, s_len = 65545, s_cap = 65545\<rparr>"] r h
  show ?thesis by (simp add: batchSize_def mtuSize_def offset_def)
qed

section \<open>A failed Write\<close>

text \<open>
  Two runs that differ only in what the destination returns are compared with the
  results of the \<open>Write\<close> calls and the log lines of their errors erased.
\<close>

fun strip_write :: "event \<Rightarrow> event" where
  "strip_write (EvWrite bs n e) = EvWrite bs 0 False"
| "strip_write e = e"

definition erase :: "event list \<Rightarrow> event list" where
  "erase es = map strip_write (filter (\<lambda>e. e \<noteq> EvLog LogWriteError) es)"

text \<open>
  \<open>logged es\<close>: in the event list \<open>es\<close> (newest first) every failed \<open>Write\<close> is
  followed at once by its log line, and no such line stands elsewhere.
\<close>

fun failed_write :: "event \<Rightarrow> bool" where
  "failed_write (EvWrite bs n e) = e"
| "failed_write _ = False"

definition write_log :: "event \<Rightarrow> bool" where
  "write_log e = (e = EvLog LogWriteError)"

fun log_follows :: "bool \<Rightarrow> event list \<Rightarrow> bool" where
  "log_follows pending [] = (\<not> pending)"
| "log_follows pending (e # es) =
     (if pending then failed_write e \<and> log_follows False es
      else if write_log e then log_follows True es
      else \<not> failed_write e \<and> log_follows False es)"

definition logged :: "event list \<Rightarrow> bool" where
  "logged es = log_follows False es"

text \<open>
  Two states of \<open>forward\<close>, or of the queued pipeline, that agree on everything but
  the destination, the results of the \<open>Write\<close> calls and the log lines of their errors.
\<close>

definition fwd_same :: "fwd_state \<Rightarrow> fwd_state \<Rightarrow> bool" where
  "fwd_same s1 s2 =
     (f_heap s1 = f_heap s2 \<and> f_src s1 = f_src s2 \<and> f_nwrites s1 = f_nwrites s2 \<and>
      f_bufs s1 = f_bufs s2 \<and> f_outBufs s1 = f_outBufs s2 \<and> f_sizes s1 = f_sizes s2 \<and>
      f_status s1 = f_status s2 \<and> erase (f_events s1) = erase (f_events s2))"

lemma erase_simps [simp]:
  "erase [] = []"
  "erase (EvLog LogWriteError # es) = erase es"
  "e \<noteq> EvLog LogWriteError \<Longrightarrow> erase (e # es) = strip_write e # erase es"
  "erase (xs @ ys) = erase xs @ erase ys"
  by (simp_all add: erase_def)

lemma erase_write_event [simp]:
  "erase (write_event d k h b) = [EvWrite (map (slice_bytes h) b) 0 False]"
  by (simp add: write_event_def Let_def)

lemma logged_simps [simp]:
  "logged [] = True"
  "logged (EvRead ls n e # es) = logged es"
  "logged (EvSend # es) = logged es"
  "logged (EvRecv # es) = logged es"
  "logged (EvPoll b # es) = logged es"
  "logged (EvGet c # es) = logged es"
  "logged (EvPut c # es) = logged es"
  "l \<noteq> LogWriteError \<Longrightarrow> logged (EvLog l # es) = logged es"
  by (simp_all add: logged_def write_log_def)

lemma logged_write_event [simp]: "logged (write_event d k h b @ es) = logged es"
  by (simp add: write_event_def Let_def logged_def write_log_def)

lemma fwd_same_alt:
  "fwd_same s1 s2 = (\<exists>d es. s2 = s1\<lparr>f_dst := d, f_events := es\<rparr> \<and> erase es = erase (f_events s1))"
proof
  assume q: "fwd_same s1 s2"
  have "s2 = s1\<lparr>f_dst := f_dst s2, f_events := f_events s2\<rparr>"
    using q by (cases s1, cases s2) (simp add: fwd_same_def)
  moreover have "erase (f_events s2) = erase (f_events s1)" using q by (simp add: fwd_same_def)
  ultimately show "\<exists>d es. s2 = s1\<lparr>f_dst := d, f_events := es\<rparr> \<and> erase es = erase (f_events s1)"
    by blast
next
  assume "\<exists>d es. s2 = s1\<lparr>f_dst := d, f_events := es\<rparr> \<and> erase es = erase (f_events s1)"
  then show "fwd_same s1 s2" by (auto simp: fwd_same_def)
qed

lemma forward_iter_same:
  assumes "fwd_same s1 s2"
  shows "fwd_same (forward_iter s1) (forward_iter s2)"
proof -
  obtain d es where s2: "s2 = s1\<lparr>f_dst := d, f_events := es\<rparr>" and e: "erase es = erase (f_events s1)"
    using assms unfolding fwd_same_alt by blast
  show ?thesis
    unfolding s2 using e
    by (simp add: fwd_same_def forward_iter_def Let_def split: option.splits list.splits prod.splits)
qed

lemma forward_same: "fwd_same s1 s2 \<Longrightarrow> fwd_same (forward k s1) (forward k s2)"
proof (induction k arbitrary: s1 s2)
  case 0
  then show ?case by simp
next
  case (Suc k)
  have "f_status s1 = f_status s2" using Suc.prems by (simp add: fwd_same_def)
  then show ?case using Suc.prems Suc.IH [OF forward_iter_same [OF Suc.prems]] by simp
qed

lemma forward_iter_logged: "logged (f_events s) \<Longrightarrow> logged (f_events (forward_iter s))"
  by (auto simp: forward_iter_def Let_def split: option.splits list.splits prod.splits)

lemma forward_logged: "logged (f_events s) \<Longrightarrow> logged (f_events (forward k s))"
  by (induction k arbitrary: s) (auto simp: forward_iter_logged)

definition q_same :: "qstate \<Rightarrow> qstate \<Rightarrow> bool" where
  "q_same s1 s2 =
     (q_heap s1 = q_heap s2 \<and> q_next s1 = q_next s2 \<and> q_usePool s1 = q_usePool s2 \<and>
      q_pool s1 = q_pool s2 \<and> q_panicked s1 = q_panicked s2 \<and> q_src s1 = q_src s2 \<and>
      q_readBufs s1 = q_readBufs s2 \<and> q_sizes s1 = q_sizes s2 \<and> q_n s1 = q_n s2 \<and>
      q_rpc s1 = q_rpc s2 \<and> q_chan s1 = q_chan s2 \<and> q_bufs s1 = q_bufs s2 \<and>
      q_originalBufs s1 = q_originalBufs s2 \<and> q_wpc s1 = q_wpc s2 \<and>
      q_nwrites s1 = q_nwrites s2 \<and> erase (q_events s1) = erase (q_events s2))"

lemma q_same_alt:
  "q_same s1 s2 = (\<exists>d es. s2 = s1\<lparr>q_dst := d, q_events := es\<rparr> \<and> erase es = erase (q_events s1))"
proof
  assume q: "q_same s1 s2"
  have "s2 = s1\<lparr>q_dst := q_dst s2, q_events := q_events s2\<rparr>"
    using q by (cases s1, cases s2) (simp add: q_same_def)
  moreover have "erase (q_events s2) = erase (q_events s1)" using q by (simp add: q_same_def)
  ultimately show "\<exists>d es. s2 = s1\<lparr>q_dst := d, q_events := es\<rparr> \<and> erase es = erase (q_events s1)"
    by blast
next
  assume "\<exists>d es. s2 = s1\<lparr>q_dst := d, q_events := es\<rparr> \<and> erase es = erase (q_events s1)"
  then show "q_same s1 s2" by (auto simp: q_same_def)
qed

lemma reader_step_same:
  assumes "q_same s1 s2"
  shows "q_same (readToChannel_step c s1) (readToChannel_step c s2)"
proof -
  obtain d es where s2: "s2 = s1\<lparr>q_dst := d, q_events := es\<rparr>" and e: "erase es = erase (q_events s1)"
    using assms unfolding q_same_alt by blast
  show ?thesis
    unfolding s2 using e
    by (cases "q_rpc s1")
       (simp_all add: q_same_def reader_defs Let_def split: option.splits list.splits prod.splits)
qed

lemma writer_step_same:
  assumes "q_same s1 s2"
  shows "q_same (writeFromChannel_step s1) (writeFromChannel_step s2)"
proof -
  obtain d es where s2: "s2 = s1\<lparr>q_dst := d, q_events := es\<rparr>" and e: "erase es = erase (q_events s1)"
    using assms unfolding q_same_alt by blast
  show ?thesis
    unfolding s2 using e
    by (cases "q_wpc s1")
       (simp_all add: q_same_def writer_defs Let_def split: option.splits list.splits prod.splits)
qed

lemma step_same:
  assumes "q_same s1 s2"
  shows "q_same (step a s1) (step a s2)"
proof -
  have p: "q_panicked s1 = q_panicked s2" "q_usePool s1 = q_usePool s2"
    using assms by (simp_all add: q_same_def)
  show ?thesis
  proof (cases a)
    case (ActReader c)
    then show ?thesis using assms p by (simp add: reader_step_same)
  next
    case ActWriter
    then show ?thesis using assms p by (simp add: writer_step_same)
  next
    case (ActPoolDrop k)
    then show ?thesis using assms p by (simp add: pool_drop_def) (simp add: q_same_def)
  next
    case (ActPoolPut c d)
    then show ?thesis using assms p by (simp add: pool_put_def) (simp add: q_same_def)
  qed
qed

lemma exec_same: "q_same s1 s2 \<Longrightarrow> q_same (exec sched s1) (exec sched s2)"
  by (induction sched arbitrary: s1 s2) (auto simp: step_same simp del: step.simps)

lemma reader_step_logged: "logged (q_events s) \<Longrightarrow> logged (q_events (readToChannel_step c s))"
  by (cases "q_rpc s")
     (auto simp: reader_defs Let_def split: option.splits list.splits prod.splits)

lemma writer_step_logged: "logged (q_events s) \<Longrightarrow> logged (q_events (writeFromChannel_step s))"
  by (cases "q_wpc s")
     (auto simp: writer_defs Let_def split: option.splits list.splits prod.splits)

lemma step_logged: "logged (q_events s) \<Longrightarrow> logged (q_events (step a s))"
  by (cases a) (auto simp: reader_step_logged writer_step_logged pool_drop_def pool_put_def)

lemma exec_logged: "logged (q_events s) \<Longrightarrow> logged (q_events (exec sched s))"
  by (induction sched arbitrary: s) (auto simp: step_logged simp del: step.simps)


text \<open>
  With pooling, the first \<open>n\<close> entries of \<open>originalBufs\<close> are the arrays of the first
  \<open>n\<close> entries of \<open>bufs\<close>: the buffers of the batch being assembled.
\<close>

definition orig_match :: "bool \<Rightarrow> slice list \<Rightarrow> slice list \<Rightarrow> nat \<Rightarrow> bool" where
  "orig_match usePool originalBufs bufs n =
     (usePool \<longrightarrow> map s_addr (take n originalBufs) = map s_addr (take n bufs))"

definition orig_inv :: "qstate \<Rightarrow> bool" where
  "orig_inv s =
     (length (q_bufs s) = batchSize \<and> length (q_originalBufs s) = batchSize \<and>
      (case q_wpc s of
         W_Wait \<Rightarrow> True
       | W_Collect n \<Rightarrow> 0 < n \<and> n < batchSize \<and>
                        orig_match (q_usePool s) (q_originalBufs s) (q_bufs s) n
       | W_Write n \<Rightarrow> 0 < n \<and> n \<le> batchSize \<and>
                      orig_match (q_usePool s) (q_originalBufs s) (q_bufs s) n
       | W_Release i n \<Rightarrow> i < n \<and> n \<le> batchSize))"

lemma take_Suc_update:
  "n < length xs \<Longrightarrow> take (Suc n) (xs[n := x]) = take n xs @ [x]"
  by (simp add: take_Suc_conv_app_nth)

lemma writer_store_orig:
  assumes "writer_store n pkt s = Some s'"
    and "orig_match (q_usePool s) (q_originalBufs s) (q_bufs s) n"
  shows "orig_match (q_usePool s') (q_originalBufs s') (q_bufs s') (Suc n) \<and>
         length (q_bufs s') = length (q_bufs s) \<and>
         length (q_originalBufs s') = length (q_originalBufs s) \<and> n < length (q_bufs s)"
proof -
  have n: "n < length (q_bufs s)" "n < length (q_originalBufs s)"
    using assms(1) by (auto simp: writer_store_def split: if_splits)
  obtain b where b: "reslice (buf pkt) (psize pkt) = Some b"
    and s': "s' = s\<lparr>q_bufs := (q_bufs s)[n := b],
                     q_originalBufs := (if q_usePool s then (q_originalBufs s)[n := buf pkt]
                                        else q_originalBufs s)\<rparr>"
    using assms(1) n by (auto simp: writer_store_def split: option.splits)
  have a: "s_addr b = s_addr (buf pkt)" using b by (auto simp: reslice_def split: if_splits)
  show ?thesis
    using assms(2) n a by (auto simp: s' orig_match_def take_Suc_update)
qed

lemma reader_step_orig: "orig_inv s \<Longrightarrow> orig_inv (readToChannel_step c s)"
  by (cases "q_rpc s")
     (auto simp: orig_inv_def reader_defs Let_def
           split: option.splits list.splits prod.splits wpc.splits)

lemma orig_match_0 [simp]: "orig_match p ob bufs 0"
  by (simp add: orig_match_def)

lemma writer_step_orig:
  assumes "orig_inv s"
  shows "orig_inv (writeFromChannel_step s)"
proof (cases "q_wpc s")
  case W_Wait
  show ?thesis
  proof (cases "q_chan s")
    case Nil
    then show ?thesis using assms W_Wait by (simp add: writeFromChannel_step_def writer_wait_def)
  next
    case (Cons pkt rest)
    let ?s0 = "emit EvRecv (s\<lparr>q_chan := rest\<rparr>)"
    show ?thesis
    proof (cases "writer_store 0 pkt ?s0")
      case None
      then show ?thesis using assms W_Wait Cons
        by (simp add: writeFromChannel_step_def writer_wait_def orig_inv_def panic_def emit_def)
    next
      case (Some s1)
      from writer_store_orig [OF Some] have
        "orig_match (q_usePool s1) (q_originalBufs s1) (q_bufs s1) (Suc 0) \<and>
         length (q_bufs s1) = length (q_bufs ?s0) \<and>
         length (q_originalBufs s1) = length (q_originalBufs ?s0)"
        by simp
      then show ?thesis using assms W_Wait Cons Some
        by (simp add: writeFromChannel_step_def writer_wait_def orig_inv_def emit_def
              after_store_def batchSize_def)
    qed
  qed
next
  case (W_Collect n)
  show ?thesis
  proof (cases "q_chan s")
    case Nil
    then show ?thesis using assms W_Collect
      by (simp add: writeFromChannel_step_def writer_collect_def orig_inv_def emit_def)
  next
    case (Cons pkt rest)
    let ?s0 = "emit (EvPoll True) (s\<lparr>q_chan := rest\<rparr>)"
    show ?thesis
    proof (cases "writer_store n pkt ?s0")
      case None
      then show ?thesis using assms W_Collect Cons
        by (simp add: writeFromChannel_step_def writer_collect_def orig_inv_def panic_def emit_def)
    next
      case (Some s1)
      have "orig_match (q_usePool ?s0) (q_originalBufs ?s0) (q_bufs ?s0) n"
        using assms W_Collect by (simp add: orig_inv_def emit_def)
      from writer_store_orig [OF Some this] have
        "orig_match (q_usePool s1) (q_originalBufs s1) (q_bufs s1) (Suc n) \<and>
         length (q_bufs s1) = length (q_bufs ?s0) \<and>
         length (q_originalBufs s1) = length (q_originalBufs ?s0)"
        by simp
      then show ?thesis using assms W_Collect Cons Some
        by (auto simp: writeFromChannel_step_def writer_collect_def orig_inv_def emit_def
              after_store_def)
    qed
  qed
next
  case (W_Write n)
  then show ?thesis using assms
    by (auto simp: writeFromChannel_step_def writer_write_def orig_inv_def panic_def)
next
  case (W_Release i n)
  then show ?thesis using assms
    by (auto simp: writeFromChannel_step_def writer_release_def orig_inv_def panic_def emit_def)
qed

lemma step_orig:
  assumes "orig_inv s"
  shows "orig_inv (step a s)"
  using assms
  by (cases a)
     (auto simp: reader_step_orig writer_step_orig pool_drop_def pool_put_def,
      auto simp: orig_inv_def split: wpc.splits)

lemma exec_orig: "orig_inv s \<Longrightarrow> orig_inv (exec sched s)"
  by (induction sched arbitrary: s) (auto simp: step_orig simp del: step.simps)

lemma queued_init_orig: "orig_inv (queued_init p caps src dst)"
  by (simp add: orig_inv_def queued_init_def)

lemma release_run:
  assumes "q_wpc s = W_Release i n" "i < n" "n \<le> length (q_originalBufs s)" "\<not> q_panicked s"
    and "k = n - i"
  shows "q_pool (exec (replicate k ActWriter) s)
           = q_pool s @ drop i (take n (q_originalBufs s)) \<and>
         q_wpc (exec (replicate k ActWriter) s) = W_Wait \<and>
         \<not> q_panicked (exec (replicate k ActWriter) s)"
  using assms
proof (induction k arbitrary: i s)
  case 0
  then show ?case by simp
next
  case (Suc k)
  let ?s' = "step ActWriter s"
  have i: "i < length (q_originalBufs s)" using Suc.prems by simp
  have s': "?s' = emit (EvPut (q_originalBufs s ! i))
                    (s\<lparr>q_pool := q_pool s @ [q_originalBufs s ! i],
                       q_wpc := (if Suc i < n then W_Release (Suc i) n else W_Wait)\<rparr>)"
    using Suc.prems i by (simp add: writeFromChannel_step_def writer_release_def)
  have d: "drop i (take n (q_originalBufs s))
             = q_originalBufs s ! i # drop (Suc i) (take n (q_originalBufs s))"
    using Suc.prems by (simp add: Cons_nth_drop_Suc [symmetric])
  show ?case
  proof (cases "Suc i < n")
    case True
    have "q_pool (exec (replicate k ActWriter) ?s')
            = q_pool ?s' @ drop (Suc i) (take n (q_originalBufs ?s')) \<and>
          q_wpc (exec (replicate k ActWriter) ?s') = W_Wait \<and>
          \<not> q_panicked (exec (replicate k ActWriter) ?s')"
      using Suc.prems True by (intro Suc.IH) (auto simp: s' emit_def simp del: step.simps)
    then show ?thesis using d by (simp add: s' emit_def del: step.simps)
  next
    case False
    then have k: "k = 0" using Suc.prems by simp
    have "drop (Suc i) (take n (q_originalBufs s)) = []" using False Suc.prems by simp
    then show ?thesis using d False k Suc.prems(4) by (simp add: s' emit_def del: step.simps)
  qed
qed

lemma write_then_release:
  assumes "q_wpc s = W_Write n" "q_usePool s" "\<not> q_panicked s" "orig_inv s"
  shows "q_pool (exec (replicate (Suc n) ActWriter) s) = q_pool s @ take n (q_originalBufs s) \<and>
         q_wpc (exec (replicate (Suc n) ActWriter) s) = W_Wait \<and>
         map s_addr (take n (q_originalBufs s)) = map s_addr (take n (q_bufs s))"
proof -
  have n: "0 < n" "n \<le> batchSize" "length (q_bufs s) = batchSize"
      "length (q_originalBufs s) = batchSize"
    and m: "orig_match (q_usePool s) (q_originalBufs s) (q_bufs s) n"
    using assms by (auto simp: orig_inv_def)
  let ?s' = "step ActWriter s"
  have s': "q_wpc ?s' = W_Release 0 n" "q_pool ?s' = q_pool s" "\<not> q_panicked ?s'"
     "q_originalBufs ?s' = q_originalBufs s"
    using assms(1,2,3) n by (simp_all add: writeFromChannel_step_def writer_write_def)
  have "q_pool (exec (replicate n ActWriter) ?s')
           = q_pool ?s' @ drop 0 (take n (q_originalBufs ?s')) \<and>
         q_wpc (exec (replicate n ActWriter) ?s') = W_Wait \<and>
         \<not> q_panicked (exec (replicate n ActWriter) ?s')"
    using s' n by (intro release_run) auto
  then show ?thesis using s' m assms(2) by (simp add: orig_match_def del: step.simps)
qed


text \<open>A destination that fails every \<open>Write\<close> and accepts nothing.\<close>

definition dst_reject :: dst_device where
  "dst_reject = (\<lambda>k bs. (0, True))"

text \<open>The reader has queued one packet; the writer has taken it and polled once.\<close>

definition sched_before_write :: "action list" where
  "sched_before_write = [ActReader 0, ActReader 0, ActReader 0, ActReader 0, ActWriter, ActWriter]"

section \<open>The contract of the source Device\<close>

text \<open>
  What \<open>Read\<close> owes to the buffers it is handed: it fills at most \<open>batchSize\<close> of them
  and leaves their slice headers alone, every size it stores is between \<open>0\<close> and
  \<open>mtuSize\<close> and is the number of payload bytes written after the \<open>offset\<close> bytes of
  header, and without an error the count it returns is the number of buffers filled.
  (A Device that truncates the buffers it fills is the subject of the section on the
  read buffers of the reader.)
\<close>

definition eff_ok :: "buf_eff \<Rightarrow> bool" where
  "eff_ok e = (ef_len e = None \<and> 0 \<le> ef_size e \<and> ef_size e \<le> int mtuSize \<and>
               int (length (ef_data e)) = ef_size e + int offset)"

definition outcome_ok :: "read_outcome \<Rightarrow> bool" where
  "outcome_ok ro = (list_all eff_ok (ro_effs ro) \<and> length (ro_effs ro) \<le> batchSize \<and>
                    (ro_err ro \<or> ro_n ro = int (length (ro_effs ro))))"

definition src_ok :: "src_device \<Rightarrow> bool" where
  "src_ok src = list_all outcome_ok src"

text \<open>The slice \<open>readBufs[j][:sizes[j]+offset]\<close>.\<close>

definition rd_slice :: "slice list \<Rightarrow> int list \<Rightarrow> nat \<Rightarrow> slice" where
  "rd_slice bufs sizes j = (bufs ! j)\<lparr>s_len := nat (sizes ! j + int offset)\<rparr>"

lemma slice_bytes_cong:
  "h (s_addr b) = h' (s_addr b) \<Longrightarrow> slice_bytes h b = slice_bytes h' b"
  by (simp add: slice_bytes_def)

lemma dev_read_frame:
  "dev_read i es (h, bufs, sizes) = (h', bufs', sizes') \<Longrightarrow>
   a \<notin> s_addr ` set (drop i bufs) \<Longrightarrow> h' a = h a"
proof (induction i es "(h, bufs, sizes)" arbitrary: h bufs sizes rule: dev_read.induct)
  case (1 i st)
  then show ?case by simp
next
  case (2 i e es h bufs sizes)
  show ?case
  proof (cases "i < length bufs \<and> i < length sizes")
    case True
    let ?h1 = "dev_fill h (bufs ! i) (ef_data e)"
    let ?b1 = "bufs[i := relen (bufs ! i) (ef_len e)]"
    have dr: "dev_read (Suc i) es (?h1, ?b1, sizes[i := ef_size e]) = (h', bufs', sizes')"
      using "2.prems"(1) True by simp
    have d: "drop (Suc i) ?b1 = drop (Suc i) bufs" by simp
    have "set (drop (Suc i) bufs) \<subseteq> set (drop i bufs)" by (rule set_drop_subset_set_drop) simp
    then have "a \<notin> s_addr ` set (drop (Suc i) ?b1)" using "2.prems"(2) d by auto
    then have "h' a = ?h1 a" using "2.hyps" [OF True dr] by simp
    moreover have "bufs ! i \<in> set (drop i bufs)"
      using True by (metis Cons_nth_drop_Suc list.set_intros(1))
    then have "a \<noteq> s_addr (bufs ! i)" using "2.prems"(2) by auto
    ultimately show ?thesis by simp
  next
    case False
    then show ?thesis using "2.prems" by auto
  qed
qed

lemma dev_read_ok:
  assumes "dev_read i es (h, bufs, sizes) = (h', bufs', sizes')"
    and "list_all eff_ok es" and "i + length es \<le> length bufs" and "length sizes = length bufs"
    and "distinct (map s_addr bufs)"
    and "\<forall>b \<in> set bufs. s_len b = mtuSize + offset"
  shows "bufs' = bufs \<and>
         (\<forall>j < length es. sizes' ! (i + j) = ef_size (es ! j) \<and>
                          slice_bytes h' (rd_slice bufs sizes' (i + j)) = ef_data (es ! j)) \<and>
         (\<forall>j < i. sizes' ! j = sizes ! j)"
  using assms
proof (induction es arbitrary: i h sizes)
  case Nil
  then show ?case by simp
next
  case (Cons e es)
  let ?h1 = "dev_fill h (bufs ! i) (ef_data e)"
  let ?s1 = "sizes[i := ef_size e]"
  have i: "i < length bufs" "i < length sizes" using Cons.prems by auto
  have e: "eff_ok e" using Cons.prems by simp
  have rl: "bufs[i := relen (bufs ! i) (ef_len e)] = bufs"
    using e by (simp add: eff_ok_def relen_def)
  have dr: "dev_read (Suc i) es (?h1, bufs, ?s1) = (h', bufs', sizes')"
    using Cons.prems(1) i rl by simp
  have IH: "bufs' = bufs \<and>
         (\<forall>j < length es. sizes' ! (Suc i + j) = ef_size (es ! j) \<and>
                          slice_bytes h' (rd_slice bufs sizes' (Suc i + j)) = ef_data (es ! j)) \<and>
         (\<forall>j < Suc i. sizes' ! j = ?s1 ! j)"
    using Cons.prems by (intro Cons.IH [OF dr]) auto
  have si: "sizes' ! i = ef_size e" using IH i by simp
  have "s_addr (bufs ! i) \<notin> s_addr ` set (drop (Suc i) bufs)"
  proof
    assume "s_addr (bufs ! i) \<in> s_addr ` set (drop (Suc i) bufs)"
    then obtain k where k: "k < length (drop (Suc i) bufs)" "s_addr (drop (Suc i) bufs ! k) = s_addr (bufs ! i)"
      by (auto simp: in_set_conv_nth)
    then have "Suc i + k < length bufs" "s_addr (bufs ! (Suc i + k)) = s_addr (bufs ! i)"
      by auto
    then show False using Cons.prems(5) i
      by (metis Suc_n_not_le_n distinct_conv_nth le_add1 length_map nth_map)
  qed
  then have hi: "h' (s_addr (bufs ! i)) = ?h1 (s_addr (bufs ! i))"
    by (rule dev_read_frame [OF dr])
  have len: "length (ef_data e) \<le> s_len (bufs ! i)"
    using e Cons.prems(6) i by (auto simp: eff_ok_def)
  have "ef_size e + int offset = int (length (ef_data e))" using e by (simp add: eff_ok_def)
  then have n: "nat (ef_size e + int offset) = length (ef_data e)" by simp
  have "slice_bytes h' (rd_slice bufs sizes' i) = slice_bytes ?h1 (rd_slice bufs sizes' i)"
    by (rule slice_bytes_cong) (simp add: rd_slice_def hi)
  also have "\<dots> = ef_data e"
    using len n by (intro slice_bytes_dev_fill) (simp_all add: rd_slice_def si)
  finally have ci: "slice_bytes h' (rd_slice bufs sizes' i) = ef_data e" .
  have "\<forall>j < length (e # es). sizes' ! (i + j) = ef_size ((e # es) ! j) \<and>
          slice_bytes h' (rd_slice bufs sizes' (i + j)) = ef_data ((e # es) ! j)"
  proof (intro allI impI)
    fix j assume j: "j < length (e # es)"
    show "sizes' ! (i + j) = ef_size ((e # es) ! j) \<and>
          slice_bytes h' (rd_slice bufs sizes' (i + j)) = ef_data ((e # es) ! j)"
    proof (cases j)
      case 0
      then show ?thesis using si ci by simp
    next
      case (Suc j')
      then show ?thesis using IH j by simp
    qed
  qed
  moreover have "\<forall>j < i. sizes' ! j = sizes ! j" using IH by simp
  ultimately show ?case using IH by blast
qed


lemma written_write_event [simp]:
  "written (write_event d k h b @ es) = written es @ map (slice_bytes h) b"
  by (simp add: write_event_def Let_def)

lemma resliced_rd_slice: "resliced bufs sizes n = map (rd_slice bufs sizes) [0..<n]"
  by (simp add: resliced_def rd_slice_def)

lemma dev_read_payloads:
  assumes "dev_read 0 es (h, bufs, sizes) = (h', bufs', sizes')"
    and "list_all eff_ok es" and "length es \<le> length bufs" and "length sizes = length bufs"
    and "distinct (map s_addr bufs)"
    and "\<forall>b \<in> set bufs. s_len b = mtuSize + offset"
  shows "map (slice_bytes h') (map (rd_slice bufs' sizes') [0..<length es]) = map ef_data es"
proof -
  from dev_read_ok [OF assms(1,2) _ assms(4,5,6)] assms(3)
  have b: "bufs' = bufs"
    and c: "\<forall>j < length es. slice_bytes h' (rd_slice bufs sizes' (0 + j)) = ef_data (es ! j)"
    by auto
  show ?thesis using c by (auto simp: b intro!: nth_equalityI)
qed

text \<open>
  The invariant of \<open>forward\<close> under that contract: it has not panicked, it is blocked
  only in a \<open>Read\<close> of a source that is used up, and the payloads written so far
  followed by those the source still holds are the payloads of the source.
\<close>

definition fwd_cons :: "byte list list \<Rightarrow> fwd_state \<Rightarrow> bool" where
  "fwd_cons all s =
     (fwd_wf s \<and> distinct (map s_addr (f_bufs s)) \<and> src_ok (f_src s) \<and>
      f_status s \<noteq> Panicked \<and> (f_status s = Blocked \<longrightarrow> f_src s = []) \<and>
      written (f_events s) @ (if f_status s = Exited then [] else packets_of (f_src s)) = all)"

lemma forward_iter_cons:
  assumes c: "fwd_cons all s" and run: "f_status s = Running"
  shows "fwd_cons all (forward_iter s)"
proof -
  have wf: "fwd_wf s" and dist: "distinct (map s_addr (f_bufs s))" and ok: "src_ok (f_src s)"
    and w: "written (f_events s) @ packets_of (f_src s) = all"
    using c run by (auto simp: fwd_cons_def)
  have wf': "fwd_wf (forward_iter s)" using wf by (rule forward_iter_wf)
  have "reset_bufs (f_bufs s) (int bufLen) = Some (map (\<lambda>b. b\<lparr>s_len := nat (int bufLen)\<rparr>) (f_bufs s))"
    using wf by (intro reset_bufs_Some)
                (auto simp: fwd_wf_def list_all_iff bufLen_def maxPktSize_def mtuSize_def offset_def)
  then have "reset_bufs (f_bufs s) (int bufLen) = Some (map (\<lambda>b. b\<lparr>s_len := bufLen\<rparr>) (f_bufs s))"
    by simp
  then obtain bufs1 where r: "reset_bufs (f_bufs s) (int bufLen) = Some bufs1"
    and b1: "bufs1 = map (\<lambda>b. b\<lparr>s_len := bufLen\<rparr>) (f_bufs s)" by blast
  have wf1: "length bufs1 = batchSize" "\<forall>b \<in> set bufs1. s_len b = mtuSize + offset"
      "distinct (map s_addr bufs1)"
    using wf dist by (auto simp: b1 fwd_wf_def bufLen_def comp_def)
  show ?thesis
  proof (cases "f_src s")
    case Nil
    then show ?thesis using r wf1 wf' w run
      by (simp add: fwd_cons_def forward_iter_def src_ok_def)
  next
    case (Cons ro rest)
    have rok: "outcome_ok ro" and restok: "src_ok rest" using ok Cons by (simp_all add: src_ok_def)
    obtain h bufs2 sizes2 where dr: "dev_read 0 (ro_effs ro) (f_heap s, bufs1, f_sizes s) = (h, bufs2, sizes2)"
      by (cases "dev_read 0 (ro_effs ro) (f_heap s, bufs1, f_sizes s)") auto
    have effs: "list_all eff_ok (ro_effs ro)" "length (ro_effs ro) \<le> length bufs1"
      "length (f_sizes s) = length bufs1"
      using rok wf wf1 by (auto simp: outcome_ok_def fwd_wf_def)
    from dev_read_ok [OF dr effs(1) _ effs(3) wf1(3,2)] effs(2)
    have b2: "bufs2 = bufs1"
      and sz: "\<forall>j < length (ro_effs ro). sizes2 ! j = ef_size (ro_effs ro ! j)"
      by auto
    have pay: "map (slice_bytes h) (map (rd_slice bufs2 sizes2) [0..<length (ro_effs ro)])
                 = map ef_data (ro_effs ro)"
      by (rule dev_read_payloads [OF dr effs(1,2,3) wf1(3,2)])
    show ?thesis
    proof (cases "ro_err ro")
      case True
      then show ?thesis using r Cons dr wf' w b2 wf1 restok
        by (simp add: fwd_cons_def forward_iter_def)
    next
      case False
      then have n: "ro_n ro = int (length (ro_effs ro))" using rok by (simp add: outcome_ok_def)
      show ?thesis
      proof (cases "ro_n ro = 0")
        case True
        then have "ro_effs ro = []" using n by simp
        then show ?thesis using r Cons dr wf' w b2 wf1 restok False True run
          by (simp add: fwd_cons_def forward_iter_def)
      next
        case nz: False
        have hyp: "0 < ro_n ro \<and> ro_n ro \<le> int batchSize \<and>
                   (\<forall>i < nat (ro_n ro). 0 \<le> f_sizes (forward_iter s) ! i \<and>
                                         f_sizes (forward_iter s) ! i \<le> 65535)"
        proof -
          have fs: "f_sizes (forward_iter s) = sizes2"
            using r Cons dr False nz by (auto simp: forward_iter_def Let_def split: option.splits)
          have "\<forall>i < nat (ro_n ro). 0 \<le> sizes2 ! i \<and> sizes2 ! i \<le> 65535"
          proof (intro allI impI)
            fix i assume i: "i < nat (ro_n ro)"
            then have il: "i < length (ro_effs ro)" using n by simp
            then have "eff_ok (ro_effs ro ! i)" using effs(1) by (simp add: list_all_length)
            then show "0 \<le> sizes2 ! i \<and> sizes2 ! i \<le> 65535"
              using sz il by (simp add: eff_ok_def mtuSize_def)
          qed
          then show ?thesis using fs n nz effs(2) wf1(1) by simp
        qed
        from forward_iter_read_ok [OF wf Cons False refl] hyp
        have ev: "f_events (forward_iter s) =
              write_event (f_dst s) (f_nwrites s) (f_heap (forward_iter s))
                (resliced (f_bufs (forward_iter s)) (f_sizes (forward_iter s)) (nat (ro_n ro)))
              @ EvRead (replicate batchSize bufLen) (ro_n ro) False # f_events s"
          and st: "f_status (forward_iter s) = f_status s"
          by blast+
        have fs: "f_sizes (forward_iter s) = sizes2" "f_bufs (forward_iter s) = bufs2"
            "f_heap (forward_iter s) = h" "f_src (forward_iter s) = rest"
          using r Cons dr False nz st run
          by (auto simp: forward_iter_def Let_def split: option.splits if_splits)
        have "written (f_events (forward_iter s)) = written (f_events s) @ map ef_data (ro_effs ro)"
          using pay by (simp add: ev fs resliced_rd_slice n)
        then show ?thesis
          using wf' w Cons False restok st run fs b2 wf1
          by (simp add: fwd_cons_def)
      qed
    qed
  qed
qed

lemma forward_cons: "fwd_cons all s \<Longrightarrow> fwd_cons all (forward k s)"
  by (induction k arbitrary: s) (auto simp: forward_iter_cons)

lemma forward_init_cons: "src_ok src \<Longrightarrow> fwd_cons (packets_of src) (forward_init src dst)"
  using forward_init_wf [of src dst]
  by (simp add: fwd_cons_def) (simp add: forward_init_def map_addr_make_bufs)

lemma forward_consumes:
  "length (f_src s) \<le> k \<Longrightarrow> f_status (forward k s) \<noteq> Running \<or> f_src (forward k s) = []"
proof (induction k arbitrary: s)
  case 0
  then show ?case by simp
next
  case (Suc k)
  show ?case
  proof (cases "f_status s = Running")
    case True
    have "length (f_src (forward_iter s)) \<le> k \<or> f_status (forward_iter s) \<noteq> Running"
      using Suc.prems
      by (auto simp: forward_iter_def Let_def split: option.splits list.splits prod.splits)
    then show ?thesis
    proof
      assume "length (f_src (forward_iter s)) \<le> k"
      then show ?thesis using Suc.IH True by simp
    next
      assume a: "f_status (forward_iter s) \<noteq> Running"
      then have "forward k (forward_iter s) = forward_iter s" by (cases k) auto
      then show ?thesis using a True by simp
    qed
  next
    case False
    then show ?thesis by simp
  qed
qed

section \<open>Well-formed states of the queued pipeline\<close>

text \<open>A packet as the writer reslices it: \<open>pkt.buf[:pkt.size]\<close>.\<close>

definition pkt_slice :: "packet \<Rightarrow> slice" where
  "pkt_slice p = (buf p)\<lparr>s_len := nat (psize p)\<rparr>"

definition full :: "slice \<Rightarrow> bool" where
  "full b = (s_len b = s_cap b)"

definition pkt_ok :: "packet \<Rightarrow> bool" where
  "pkt_ok p = (0 \<le> psize p \<and> psize p \<le> int (s_cap (buf p)) \<and> full (buf p))"

definition size_ok :: "int \<Rightarrow> bool" where
  "size_ok x = (0 \<le> x \<and> x \<le> int mtuSize)"

text \<open>What holds of the reader at its control points.\<close>

definition rpc_ok :: "qstate \<Rightarrow> bool" where
  "rpc_ok s =
     (case q_rpc s of
        R_Read \<Rightarrow> True
      | R_Acquire i \<Rightarrow> int i < q_n s \<and> q_n s \<le> int batchSize
      | R_Fill i b \<Rightarrow> int i < q_n s \<and> q_n s \<le> int batchSize \<and> full b
      | R_Send i p \<Rightarrow> int i < q_n s \<and> q_n s \<le> int batchSize \<and> pkt_ok p \<and>
                       psize p = q_sizes s ! i + int offset
      | R_Stopped \<Rightarrow> True)"

text \<open>
  The first \<open>n\<close> entries of \<open>originalBufs\<close> are the first \<open>n\<close> entries of \<open>bufs\<close> at
  their full length.
\<close>

definition orig_full :: "slice list \<Rightarrow> slice list \<Rightarrow> nat \<Rightarrow> bool" where
  "orig_full obs bufs n = (take n obs = map (\<lambda>b. b\<lparr>s_len := s_cap b\<rparr>) (take n bufs))"

text \<open>What holds of the writer at its control points.\<close>

definition wpc_ok :: "qstate \<Rightarrow> bool" where
  "wpc_ok s =
     (case q_wpc s of
        W_Wait \<Rightarrow> True
      | W_Collect n \<Rightarrow> 0 < n \<and> n < batchSize \<and>
           (q_usePool s \<longrightarrow> orig_full (q_originalBufs s) (q_bufs s) n)
      | W_Write n \<Rightarrow> 0 < n \<and> n \<le> batchSize \<and>
           (q_usePool s \<longrightarrow> orig_full (q_originalBufs s) (q_bufs s) n)
      | W_Release i n \<Rightarrow> i < n \<and> n \<le> batchSize \<and> q_usePool s \<and>
           list_all full (drop i (take n (q_originalBufs s))))"

definition qwf :: "qstate \<Rightarrow> bool" where
  "qwf s =
     (\<not> q_panicked s \<and>
      length (q_readBufs s) = batchSize \<and>
      list_all (\<lambda>b. s_len b = mtuSize + offset \<and> s_cap b = mtuSize + offset) (q_readBufs s) \<and>
      length (q_sizes s) = batchSize \<and> list_all size_ok (q_sizes s) \<and>
      src_ok (q_src s) \<and> rpc_ok s \<and>
      list_all pkt_ok (q_chan s) \<and> list_all full (q_pool s) \<and>
      length (q_bufs s) = batchSize \<and> length (q_originalBufs s) = batchSize \<and> wpc_ok s)"

lemma dev_read_size_ok:
  "list_all size_ok sizes \<Longrightarrow> list_all eff_ok es \<Longrightarrow>
   dev_read i es (h, bufs, sizes) = (h', bufs', sizes') \<Longrightarrow> list_all size_ok sizes'"
  by (induction i es "(h, bufs, sizes)" arbitrary: h bufs sizes rule: dev_read.induct)
     (auto split: if_splits simp: list_all_update eff_ok_def size_ok_def)

lemma size_ok_int64:
  "size_ok x \<Longrightarrow> int64 (x + int offset) = x + int offset"
  by (rule int64_id) (auto simp: size_ok_def mtuSize_def offset_def)

text \<open>The effect of each step, for a well-formed state.\<close>

lemma reader_read_effect:
  assumes "qwf s" "q_rpc s = R_Read" "q_src s = ro # rest"
    and "dev_read 0 (ro_effs ro) (q_heap s, q_readBufs s, q_sizes s) = (h, bufs2, sizes2)"
  shows "bufs2 = q_readBufs s" "list_all size_ok sizes2" "length sizes2 = batchSize"
    "readToChannel_step c s =
       (if ro_err ro then
          s\<lparr>q_heap := h, q_sizes := sizes2, q_src := rest, q_n := ro_n ro, q_rpc := R_Stopped,
            q_events := EvLog LogReadErrorExiting #
                        EvRead (map s_len (q_readBufs s)) (ro_n ro) (ro_err ro) # q_events s\<rparr>
        else
          s\<lparr>q_heap := h, q_sizes := sizes2, q_src := rest, q_n := ro_n ro,
            q_rpc := (if 0 < ro_n ro then R_Acquire 0 else R_Read),
            q_events := EvRead (map s_len (q_readBufs s)) (ro_n ro) (ro_err ro) # q_events s\<rparr>)"
proof -
  have rok: "outcome_ok ro" using assms(1,3) by (simp add: qwf_def src_ok_def)
  have e: "list_all eff_ok (ro_effs ro)" "length (ro_effs ro) \<le> length (q_readBufs s)"
      "length (q_sizes s) = length (q_readBufs s)"
    using rok assms(1) by (auto simp: outcome_ok_def qwf_def)
  have l: "\<forall>b \<in> set (q_readBufs s). s_len b = mtuSize + offset"
    using assms(1) by (auto simp: qwf_def list_all_iff)
  show "list_all size_ok sizes2"
    using dev_read_size_ok [OF _ e(1) assms(4)] assms(1) by (simp add: qwf_def)
  show "length sizes2 = batchSize" using dev_read_length [OF assms(4)] assms(1) by (simp add: qwf_def)
  have "map s_addr bufs2 = map s_addr (q_readBufs s) \<and> map s_cap bufs2 = map s_cap (q_readBufs s)"
    by (rule dev_read_addr_cap [OF assms(4)])
  have ef: "\<forall>x \<in> set (ro_effs ro). ef_len x = None" using e(1) by (auto simp: list_all_iff eff_ok_def)
  have "\<And>i h bufs sizes h' bufs' sizes'. \<forall>x \<in> set es. ef_len x = None \<Longrightarrow>
         dev_read i es (h, bufs, sizes) = (h', bufs', sizes') \<Longrightarrow> bufs' = bufs" for es
  proof (induction es)
    case Nil
    then show ?case by simp
  next
    case (Cons x es)
    then show ?case by (auto simp: relen_def split: if_splits)
  qed
  from this [OF ef assms(4)] show b: "bufs2 = q_readBufs s" .
  show "readToChannel_step c s =
       (if ro_err ro then
          s\<lparr>q_heap := h, q_sizes := sizes2, q_src := rest, q_n := ro_n ro, q_rpc := R_Stopped,
            q_events := EvLog LogReadErrorExiting #
                        EvRead (map s_len (q_readBufs s)) (ro_n ro) (ro_err ro) # q_events s\<rparr>
        else
          s\<lparr>q_heap := h, q_sizes := sizes2, q_src := rest, q_n := ro_n ro,
            q_rpc := (if 0 < ro_n ro then R_Acquire 0 else R_Read),
            q_events := EvRead (map s_len (q_readBufs s)) (ro_n ro) (ro_err ro) # q_events s\<rparr>)"
    using assms(2,3,4) b
    by (cases s) (simp add: readToChannel_step_def reader_read_def emit_def Let_def)
qed


lemma qwf_reader_read:
  assumes "qwf s" "q_rpc s = R_Read"
  shows "qwf (readToChannel_step c s)"
proof (cases "q_src s")
  case Nil
  then show ?thesis using assms by (simp add: readToChannel_step_def reader_read_def)
next
  case (Cons ro rest)
  obtain h bufs2 sizes2 where dr: "dev_read 0 (ro_effs ro) (q_heap s, q_readBufs s, q_sizes s) = (h, bufs2, sizes2)"
    by (cases "dev_read 0 (ro_effs ro) (q_heap s, q_readBufs s, q_sizes s)") auto
  note e = reader_read_effect [OF assms Cons dr]
  have rok: "outcome_ok ro" "src_ok rest" using assms(1) Cons by (simp_all add: qwf_def src_ok_def)
  show ?thesis
    using assms e(2,3) rok
    by (auto simp: e(4) qwf_def rpc_ok_def wpc_ok_def outcome_ok_def split: wpc.splits)
qed

lemma remove_nth_set: "set (remove_nth k xs) \<subseteq> set xs"
  by (auto simp: remove_nth_def dest: in_set_takeD in_set_dropD)

lemma list_all_remove_nth: "list_all P xs \<Longrightarrow> list_all P (remove_nth k xs)"
  using remove_nth_set [of k xs] by (auto simp: list_all_iff)

lemma qwf_reader_acquire:
  assumes "qwf s" "q_rpc s = R_Acquire i"
  shows "qwf (readToChannel_step c s)"
proof -
  have "full (q_pool s ! c)" if "c < length (q_pool s)"
    using assms(1) that by (auto simp: qwf_def list_all_iff)
  then show ?thesis
    using assms
    by (auto simp: readToChannel_step_def reader_acquire_def emit_def alloc_def qwf_def rpc_ok_def
          wpc_ok_def full_def make_slice_def list_all_remove_nth
        split: wpc.splits)
qed

lemma qwf_reader_fill:
  assumes "qwf s" "q_rpc s = R_Fill i b"
  shows "qwf (readToChannel_step c s)"
proof -
  have i: "i < batchSize" "i < length (q_sizes s)" "i < length (q_readBufs s)"
    using assms by (auto simp: qwf_def rpc_ok_def)
  have so: "size_ok (q_sizes s ! i)" using assms(1) i by (auto simp: qwf_def list_all_iff)
  have sz: "int64 (q_sizes s ! i + int offset) = q_sizes s ! i + int offset"
    using so by (rule size_ok_int64)
  have "s_cap (q_readBufs s ! i) = mtuSize + offset"
    using assms(1) i by (auto simp: qwf_def list_all_iff)
  then have rs: "reslice (q_readBufs s ! i) (q_sizes s ! i + int offset)
              = Some ((q_readBufs s ! i)\<lparr>s_len := nat (q_sizes s ! i + int offset)\<rparr>)"
    using so by (simp add: reslice_def size_ok_def)
  show ?thesis
    using assms i so
    by (auto simp: readToChannel_step_def reader_fill_def sz rs emit_def alloc_def qwf_def
          rpc_ok_def wpc_ok_def full_def pkt_ok_def make_slice_def size_ok_def Let_def
        split: wpc.splits)
qed

lemma qwf_reader_send:
  assumes "qwf s" "q_rpc s = R_Send i p"
  shows "qwf (readToChannel_step c s)"
  using assms
  by (auto simp: readToChannel_step_def reader_send_def emit_def qwf_def rpc_ok_def wpc_ok_def
      split: wpc.splits)

lemma qwf_reader: "qwf s \<Longrightarrow> qwf (readToChannel_step c s)"
  by (cases "q_rpc s")
     (simp_all add: qwf_reader_read qwf_reader_acquire qwf_reader_fill qwf_reader_send,
      simp add: readToChannel_step_def)


lemma writer_store_effect:
  assumes "pkt_ok pkt" "n < length (q_bufs s)" "n < length (q_originalBufs s)"
  shows "writer_store n pkt s =
           Some (s\<lparr>q_bufs := (q_bufs s)[n := pkt_slice pkt],
                   q_originalBufs := (if q_usePool s then (q_originalBufs s)[n := buf pkt]
                                      else q_originalBufs s)\<rparr>)"
  using assms by (simp add: writer_store_def reslice_def pkt_ok_def pkt_slice_def)

lemma pkt_slice_full: "pkt_ok p \<Longrightarrow> (pkt_slice p)\<lparr>s_len := s_cap (pkt_slice p)\<rparr> = buf p"
  by (cases "buf p") (simp add: pkt_ok_def pkt_slice_def full_def)

lemma writer_wait_effect:
  assumes "qwf s" "q_wpc s = W_Wait" "q_chan s = pkt # rest"
  shows "writeFromChannel_step s =
           s\<lparr>q_chan := rest, q_events := EvRecv # q_events s,
             q_bufs := (q_bufs s)[0 := pkt_slice pkt],
             q_originalBufs := (if q_usePool s then (q_originalBufs s)[0 := buf pkt]
                                else q_originalBufs s),
             q_wpc := W_Collect 1\<rparr>"
proof -
  have p: "pkt_ok pkt" using assms(1,3) by (simp add: qwf_def)
  have l: "0 < length (q_bufs s)" "0 < length (q_originalBufs s)"
    using assms(1) by (simp_all add: qwf_def batchSize_def)
  have "writer_store 0 pkt (emit EvRecv (s\<lparr>q_chan := rest\<rparr>)) =
          Some ((emit EvRecv (s\<lparr>q_chan := rest\<rparr>))
                  \<lparr>q_bufs := (q_bufs s)[0 := pkt_slice pkt],
                   q_originalBufs := (if q_usePool s then (q_originalBufs s)[0 := buf pkt]
                                      else q_originalBufs s)\<rparr>)"
    using writer_store_effect [OF p, of 0 "emit EvRecv (s\<lparr>q_chan := rest\<rparr>)"] l
    by (simp add: emit_def)
  then show ?thesis
    using assms(2,3)
    by (simp add: writeFromChannel_step_def writer_wait_def emit_def after_store_def batchSize_def)
qed

lemma writer_collect_effect:
  assumes "qwf s" "q_wpc s = W_Collect n" "q_chan s = pkt # rest"
  shows "writeFromChannel_step s =
           s\<lparr>q_chan := rest, q_events := EvPoll True # q_events s,
             q_bufs := (q_bufs s)[n := pkt_slice pkt],
             q_originalBufs := (if q_usePool s then (q_originalBufs s)[n := buf pkt]
                                else q_originalBufs s),
             q_wpc := (if Suc n < batchSize then W_Collect (Suc n) else W_Write (Suc n))\<rparr>"
proof -
  have p: "pkt_ok pkt" using assms(1,3) by (simp add: qwf_def)
  have l: "n < length (q_bufs s)" "n < length (q_originalBufs s)"
    using assms(1,2) by (simp_all add: qwf_def wpc_ok_def)
  have "writer_store n pkt (emit (EvPoll True) (s\<lparr>q_chan := rest\<rparr>)) =
          Some ((emit (EvPoll True) (s\<lparr>q_chan := rest\<rparr>))
                  \<lparr>q_bufs := (q_bufs s)[n := pkt_slice pkt],
                   q_originalBufs := (if q_usePool s then (q_originalBufs s)[n := buf pkt]
                                      else q_originalBufs s)\<rparr>)"
    using writer_store_effect [OF p, of n "emit (EvPoll True) (s\<lparr>q_chan := rest\<rparr>)"] l
    by (simp add: emit_def)
  then show ?thesis
    using assms(2,3)
    by (simp add: writeFromChannel_step_def writer_collect_def emit_def after_store_def)
qed

lemma fullify_store:
  assumes "pkt_ok pkt" "n < length bufs" "n < length obs" and "orig_full obs bufs n"
  shows "orig_full (obs[n := buf pkt]) (bufs[n := pkt_slice pkt]) (Suc n)"
  using assms by (simp add: orig_full_def take_Suc_update pkt_slice_full)

lemma orig_full_0 [simp]: "orig_full obs bufs 0"
  by (simp add: orig_full_def)

lemma qwf_writer:
  assumes "qwf s"
  shows "qwf (writeFromChannel_step s)"
proof (cases "q_wpc s")
  case W_Wait
  show ?thesis
  proof (cases "q_chan s")
    case Nil
    then show ?thesis using assms W_Wait by (simp add: writeFromChannel_step_def writer_wait_def)
  next
    case (Cons pkt rest)
    have p: "pkt_ok pkt" using assms Cons by (simp add: qwf_def)
    have "orig_full ((q_originalBufs s)[0 := buf pkt]) ((q_bufs s)[0 := pkt_slice pkt]) (Suc 0)"
      using assms p by (intro fullify_store) (simp_all add: qwf_def batchSize_def)
    then show ?thesis
      using assms Cons W_Wait
      by (simp add: writer_wait_effect [OF assms W_Wait Cons] qwf_def rpc_ok_def wpc_ok_def
            batchSize_def split: rpc.splits)
  qed
next
  case (W_Collect n)
  show ?thesis
  proof (cases "q_chan s")
    case Nil
    then show ?thesis using assms W_Collect
      by (simp add: writeFromChannel_step_def writer_collect_def emit_def qwf_def rpc_ok_def
            wpc_ok_def split: rpc.splits)
  next
    case (Cons pkt rest)
    have p: "pkt_ok pkt" using assms Cons by (simp add: qwf_def)
    have "q_usePool s \<Longrightarrow>
          orig_full ((q_originalBufs s)[n := buf pkt]) ((q_bufs s)[n := pkt_slice pkt]) (Suc n)"
      using assms p W_Collect by (intro fullify_store) (simp_all add: qwf_def wpc_ok_def)
    then show ?thesis
      using assms Cons W_Collect
      by (simp add: writer_collect_effect [OF assms W_Collect Cons] qwf_def rpc_ok_def wpc_ok_def
            split: rpc.splits)
  qed
next
  case (W_Write n)
  have "list_all full (map (\<lambda>b. b\<lparr>s_len := s_cap b\<rparr>) (take n (q_bufs s)))"
    by (simp add: list_all_iff full_def)
  then have "q_usePool s \<Longrightarrow> list_all full (take n (q_originalBufs s))"
    using assms W_Write by (simp add: qwf_def wpc_ok_def orig_full_def)
  then show ?thesis
    using assms W_Write
    by (auto simp: writeFromChannel_step_def writer_write_def qwf_def rpc_ok_def wpc_ok_def
           split: rpc.splits)
next
  case (W_Release i n)
  have i: "i < length (q_originalBufs s)" "i < n" "n \<le> length (q_originalBufs s)"
    using assms W_Release by (simp_all add: qwf_def wpc_ok_def)
  have d: "drop i (take n (q_originalBufs s))
             = q_originalBufs s ! i # drop (Suc i) (take n (q_originalBufs s))"
    using i by (simp add: Cons_nth_drop_Suc [symmetric])
  have "list_all full (drop i (take n (q_originalBufs s)))"
    using assms W_Release by (simp add: qwf_def wpc_ok_def)
  then have f: "full (q_originalBufs s ! i)" "list_all full (drop (Suc i) (take n (q_originalBufs s)))"
    unfolding d by simp_all
  show ?thesis
    using assms W_Release i f
    by (simp add: writeFromChannel_step_def writer_release_def emit_def qwf_def rpc_ok_def
          wpc_ok_def split: rpc.splits)
qed

lemma qwf_step:
  assumes "qwf s"
  shows "qwf (step a s)"
proof -
  have p: "\<not> q_panicked s" using assms by (simp add: qwf_def)
  show ?thesis
  proof (cases a)
    case (ActReader c)
    then show ?thesis using assms p by (simp add: qwf_reader)
  next
    case ActWriter
    then show ?thesis using assms p by (simp add: qwf_writer)
  next
    case (ActPoolDrop k)
    then show ?thesis using assms p
      by (simp add: pool_drop_def)
         (simp add: qwf_def rpc_ok_def wpc_ok_def list_all_remove_nth split: rpc.splits wpc.splits)
  next
    case (ActPoolPut c d)
    then show ?thesis using assms p
      by (simp add: pool_put_def)
         (simp add: qwf_def rpc_ok_def wpc_ok_def full_def make_slice_def
               split: rpc.splits wpc.splits)
  qed
qed

section \<open>The writer after a \<open>Write\<close>\<close>

text \<open>The buffers put into the pool by the writer, in the order of the calls.\<close>

fun puts :: "event list \<Rightarrow> slice list" where
  "puts [] = []"
| "puts (EvPut b # es) = puts es @ [b]"
| "puts (_ # es) = puts es"

lemma puts_write_event [simp]: "puts (write_event d k h b @ es) = puts es"
  by (simp add: write_event_def Let_def)

lemma exec_qwf: "qwf s \<Longrightarrow> qwf (exec sched s)"
  by (induction sched arbitrary: s) (auto simp: qwf_step simp del: step.simps)

lemma queued_init_qwf: "src_ok src \<Longrightarrow> qwf (queued_init p caps src dst)"
  by (simp add: qwf_def queued_init_def rpc_ok_def wpc_ok_def size_ok_def list_all_iff
        set_make_bufs full_def make_slice_def)
     (auto simp: set_zip make_slice_def)

lemma other_step_writer:
  assumes "a \<noteq> ActWriter"
  shows "q_wpc (step a s) = q_wpc s \<and> q_originalBufs (step a s) = q_originalBufs s \<and>
         q_bufs (step a s) = q_bufs s \<and> puts (q_events (step a s)) = puts (q_events s)"
proof (cases a)
  case (ActReader c)
  show ?thesis
    unfolding ActReader
    by (cases "q_rpc s")
       (auto simp: reader_defs Let_def split: option.splits list.splits prod.splits)
next
  case ActWriter
  then show ?thesis using assms by simp
next
  case (ActPoolDrop k)
  then show ?thesis by (simp add: pool_drop_def)
next
  case (ActPoolPut c d)
  then show ?thesis by (simp add: pool_put_def)
qed

lemma writer_step_puts:
  "\<exists>extra. puts (q_events (writeFromChannel_step s)) = puts (q_events s) @ extra"
  by (cases "q_wpc s")
     (auto simp: writer_defs Let_def split: option.splits list.splits prod.splits if_splits)

lemma step_puts: "\<exists>extra. puts (q_events (step a s)) = puts (q_events s) @ extra"
proof (cases "a = ActWriter")
  case True
  then show ?thesis using writer_step_puts [of s] by simp
next
  case False
  then show ?thesis using other_step_writer [OF False, of s] by simp
qed

lemma exec_puts: "\<exists>extra. puts (q_events (exec sched s)) = puts (q_events s) @ extra"
proof (induction sched arbitrary: s)
  case Nil
  then show ?case by simp
next
  case (Cons a sched)
  obtain e1 where e1: "puts (q_events (step a s)) = puts (q_events s) @ e1"
    using step_puts by blast
  obtain e2 where e2: "puts (q_events (exec sched (step a s))) = puts (q_events (step a s)) @ e2"
    using Cons.IH by blast
  show ?case using e1 e2 by (simp del: step.simps)
qed

text \<open>
  From the control point after the \<open>Write\<close>, however the steps of the writer are
  interleaved with those of the reader and of the rest of the program, its next
  \<open>n - i\<close> steps put the remaining buffers of the batch into the pool.
\<close>

lemma release_interleaved:
  assumes "qwf s" "q_wpc s = W_Release i n" "n - i \<le> count_list sch ActWriter"
  shows "take (length (puts (q_events s)) + (n - i)) (puts (q_events (exec sch s)))
           = puts (q_events s) @ drop i (take n (q_originalBufs s))"
  using assms
proof (induction sch arbitrary: s i)
  case Nil
  then show ?case by (simp add: qwf_def wpc_ok_def)
next
  case (Cons a sch)
  have i: "i < n" "n \<le> length (q_originalBufs s)" "\<not> q_panicked s" "i < length (q_originalBufs s)"
    using Cons.prems by (auto simp: qwf_def wpc_ok_def)
  let ?s' = "step a s"
  have wf': "qwf ?s'" using Cons.prems(1) by (rule qwf_step)
  show ?case
  proof (cases "a = ActWriter")
    case False
    note o = other_step_writer [OF False, of s]
    have "take (length (puts (q_events ?s')) + (n - i)) (puts (q_events (exec sch ?s')))
            = puts (q_events ?s') @ drop i (take n (q_originalBufs ?s'))"
      using Cons.prems False o by (intro Cons.IH [OF wf']) auto
    then show ?thesis using o by (simp del: step.simps)
  next
    case True
    have s': "?s' = emit (EvPut (q_originalBufs s ! i))
                    (s\<lparr>q_pool := q_pool s @ [q_originalBufs s ! i],
                       q_wpc := (if Suc i < n then W_Release (Suc i) n else W_Wait)\<rparr>)"
      using Cons.prems(2) i True by (simp add: writeFromChannel_step_def writer_release_def)
    have d: "drop i (take n (q_originalBufs s))
               = q_originalBufs s ! i # drop (Suc i) (take n (q_originalBufs s))"
      using i by (simp add: Cons_nth_drop_Suc [symmetric])
    have p': "puts (q_events ?s') = puts (q_events s) @ [q_originalBufs s ! i]"
      by (simp add: s' emit_def del: step.simps)
    show ?thesis
    proof (cases "Suc i < n")
      case lt: True
      have w': "q_wpc ?s' = W_Release (Suc i) n" using lt by (simp add: s' emit_def del: step.simps)
      have c': "n - Suc i \<le> count_list sch ActWriter" using Cons.prems(3) True by simp
      have ih: "take (length (puts (q_events ?s')) + (n - Suc i)) (puts (q_events (exec sch ?s')))
              = puts (q_events ?s') @ drop (Suc i) (take n (q_originalBufs ?s'))"
        by (rule Cons.IH [OF wf' w' c'])
      have ob: "q_originalBufs ?s' = q_originalBufs s" by (simp add: s' emit_def del: step.simps)
      have eq: "length (puts (q_events ?s')) + (n - Suc i) = length (puts (q_events s)) + (n - i)"
        using lt by (simp add: p' del: step.simps)
      have "take (length (puts (q_events s)) + (n - i)) (puts (q_events (exec sch ?s')))
              = (puts (q_events s) @ [q_originalBufs s ! i]) @ drop (Suc i) (take n (q_originalBufs s))"
        using ih [unfolded eq] unfolding ob p' .
      then show ?thesis unfolding d exec.simps by (simp del: step.simps drop_take)
    next
      case ge: False
      then have ni: "n - i = 1" using i by simp
      obtain extra where e: "puts (q_events (exec sch ?s')) = puts (q_events ?s') @ extra"
        using exec_puts by blast
      have "drop (Suc i) (take n (q_originalBufs s)) = []" using ge by simp
      then show ?thesis using d e p' ni by (simp del: step.simps)
    qed
  qed
qed

lemma writer_write_effect:
  assumes "qwf s" "q_wpc s = W_Write n"
  shows "step ActWriter s =
           s\<lparr>q_nwrites := Suc (q_nwrites s),
             q_events := write_event (q_dst s) (q_nwrites s) (q_heap s) (take n (q_bufs s))
                           @ q_events s,
             q_wpc := (if q_usePool s then W_Release 0 n else W_Wait)\<rparr>"
  using assms by (simp add: qwf_def wpc_ok_def writeFromChannel_step_def writer_write_def)

lemma write_release_interleaved:
  assumes "qwf s" "q_wpc s = W_Write n" "q_usePool s" "n \<le> count_list sch ActWriter"
  shows "take (length (puts (q_events s)) + n) (puts (q_events (exec (ActWriter # sch) s)))
           = puts (q_events s) @ take n (q_originalBufs s)"
proof -
  let ?s' = "step ActWriter s"
  note e = writer_write_effect [OF assms(1,2)]
  have wf': "qwf ?s'" using assms(1) by (rule qwf_step)
  have w: "q_wpc ?s' = W_Release 0 n" "puts (q_events ?s') = puts (q_events s)"
     "q_originalBufs ?s' = q_originalBufs s"
    using assms(3) by (simp_all add: e del: step.simps)
  have "take (length (puts (q_events ?s')) + (n - 0)) (puts (q_events (exec sch ?s')))
           = puts (q_events ?s') @ drop 0 (take n (q_originalBufs ?s'))"
    using assms(4) by (intro release_interleaved [OF wf' w(1)]) simp
  then show ?thesis by (simp add: w del: step.simps)
qed

lemma batch_arrays:
  assumes "qwf s" "q_wpc s = W_Write n" "q_usePool s"
  shows "take n (q_originalBufs s) = map (\<lambda>b. b\<lparr>s_len := s_cap b\<rparr>) (take n (q_bufs s))"
  using assms by (simp add: qwf_def wpc_ok_def orig_full_def)

text \<open>Two reads of one packet each.\<close>

definition src_two_reads :: src_device where
  "src_two_reads = [\<lparr>ro_n = 1, ro_err = False, ro_effs = [pkt7]\<rparr>,
                    \<lparr>ro_n = 1, ro_err = False, ro_effs = [pkt89]\<rparr>]"

text \<open>The reader reads again and gets a buffer, then the writer takes its step.\<close>

definition sched_put_late :: "action list" where
  "sched_put_late = [ActReader 0, ActReader 0, ActWriter]"

lemma forward_all_written:
  assumes "src_ok src" "length src \<le> k"
  shows "written (f_events (forward k (forward_init src d))) = packets_of src"
proof -
  let ?u = "forward k (forward_init src d)"
  have c: "fwd_cons (packets_of src) ?u"
    by (rule forward_cons [OF forward_init_cons [OF assms(1)]])
  have "f_status ?u \<noteq> Running \<or> f_src ?u = []"
    using assms(2) by (intro forward_consumes) (simp add: forward_init_def)
  then have "(if f_status ?u = Exited then [] else packets_of (f_src ?u)) = []"
    using c by (cases "f_status ?u") (auto simp: fwd_cons_def)
  then show ?thesis using c by (simp add: fwd_cons_def)
qed

lemma forward_iter_running:
  assumes "fwd_cons all s" "f_status s = Running" "f_src s = ro # rest" "\<not> ro_err ro"
  shows "f_status (forward_iter s) = Running \<and> f_src (forward_iter s) = rest"
proof -
  have "f_status (forward_iter s) \<noteq> Panicked"
    using forward_iter_cons [OF assms(1,2)] by (simp add: fwd_cons_def)
  then show ?thesis
    using assms(2,3,4)
    by (auto simp: forward_iter_def Let_def split: option.splits prod.splits if_splits)
qed

lemma forward_running:
  assumes "fwd_cons all s" "f_status s = Running" "k \<le> length (f_src s)"
    and "\<not> list_ex ro_err (take k (f_src s))"
  shows "f_status (forward k s) = Running \<and> f_src (forward k s) = drop k (f_src s)"
  using assms
proof (induction k arbitrary: s)
  case 0
  then show ?case by simp
next
  case (Suc k)
  obtain ro rest where src: "f_src s = ro # rest" using Suc.prems(3) by (cases "f_src s") auto
  have ne: "\<not> ro_err ro" "\<not> list_ex ro_err (take k rest)" using Suc.prems(4) src by auto
  note r = forward_iter_running [OF Suc.prems(1,2) src ne(1)]
  have "f_status (forward k (forward_iter s)) = Running \<and>
        f_src (forward k (forward_iter s)) = drop k (f_src (forward_iter s))"
    using r ne(2) Suc.prems(3) src
    by (intro Suc.IH forward_iter_cons [OF Suc.prems(1,2)]) auto
  then show ?case using r src Suc.prems(2) by simp
qed

text \<open>
  Claim C8. Let the destination return whatever it likes (a count, an error) to every
  \<open>Write\<close>. Two runs that differ only in the destination agree, after any number of
  iterations of \<open>forward\<close> and under any schedule of the queued pipeline, on everything
  but the results of the \<open>Write\<close> calls and their log lines; every failed \<open>Write\<close> is
  logged. The loop of \<open>forward\<close> goes on: it has returned only if a \<open>Read\<close> has failed
  and, with a source that keeps its contract, it never panics, it is blocked only in
  the \<open>Read\<close> of a source that is used up, after \<open>k\<close> successful reads it is at the
  head of the loop with exactly those \<open>k\<close> reads consumed, and once the source is used
  up every packet it produced has been handed to \<open>Write\<close>, in order. The queued
  pipeline never panics; the step of the writer at the \<open>Write\<close> logs the error, if
  any, and goes on to the release of the buffers or, without pooling, back to the
  receive at the head of the loop. With pooling the next \<open>n\<close> calls of \<open>Put\<close> are those
  of the \<open>n\<close> buffers of the batch, however the later steps of the writer are
  interleaved with steps of the reader and of the rest of the program; taken without
  interruption, these steps leave the buffers at the end of the pool and the writer at
  the head of its loop.
\<close>

theorem C8_write_error_not_fatal:
  assumes "u1 = forward k (forward_init src d1)" and "u2 = forward k (forward_init src d2)"
    and "t1 = exec sched (queued_init p caps src d1)"
    and "t2 = exec sched (queued_init p caps src d2)"
  shows "fwd_same u1 u2 \<and> logged (f_events u1) \<and> q_same t1 t2 \<and> logged (q_events t1) \<and>
         (q_usePool t1 \<and> q_wpc t1 = W_Write n \<and> \<not> q_panicked t1 \<longrightarrow>
            q_pool (exec (replicate (Suc n) ActWriter) t1) = q_pool t1 @ take n (q_originalBufs t1) \<and>
            map s_addr (take n (q_originalBufs t1)) = map s_addr (take n (q_bufs t1)) \<and>
            q_wpc (exec (replicate (Suc n) ActWriter) t1) = W_Wait) \<and>
         (f_status u1 = Exited \<longrightarrow> read_failed (f_events u1)) \<and>
         (src_ok src \<longrightarrow>
            f_status u1 \<noteq> Panicked \<and>
            (f_status u1 = Blocked \<longrightarrow> f_src u1 = []) \<and>
            (k \<le> length src \<and> \<not> list_ex ro_err (take k src) \<longrightarrow>
               f_status u1 = Running \<and> f_src u1 = drop k src) \<and>
            (length src \<le> k \<longrightarrow> written (f_events u1) = packets_of src) \<and>
            \<not> q_panicked t1 \<and>
            (q_wpc t1 = W_Write n \<longrightarrow>
               step ActWriter t1 =
                 t1\<lparr>q_nwrites := Suc (q_nwrites t1),
                    q_events := write_event (q_dst t1) (q_nwrites t1) (q_heap t1)
                                  (take n (q_bufs t1)) @ q_events t1,
                    q_wpc := (if q_usePool t1 then W_Release 0 n else W_Wait)\<rparr> \<and>
               (q_usePool t1 \<and> n \<le> count_list sch ActWriter \<longrightarrow>
                  take (length (puts (q_events t1)) + n)
                       (puts (q_events (exec (ActWriter # sch) t1)))
                    = puts (q_events t1) @ take n (q_originalBufs t1))))"
proof -
  have "fwd_same (forward_init src d1) (forward_init src d2)"
    by (simp add: fwd_same_def forward_init_def)
  then have a: "fwd_same u1 u2" unfolding assms by (rule forward_same)
  have b: "logged (f_events u1)"
    unfolding assms by (rule forward_logged) (simp add: forward_init_def)
  have "q_same (queued_init p caps src d1) (queued_init p caps src d2)"
    by (simp add: q_same_def queued_init_def)
  then have c: "q_same t1 t2" unfolding assms by (rule exec_same)
  have d: "logged (q_events t1)"
    unfolding assms by (rule exec_logged) (simp add: queued_init_def)
  have o: "orig_inv t1" unfolding assms by (rule exec_orig [OF queued_init_orig])
  have e: "f_status u1 = Exited \<longrightarrow> read_failed (f_events u1)"
    using forward_quiet [OF forward_init_quiet, of k src d1] by (simp add: fwd_quiet_def assms)
  have f: "f_status u1 \<noteq> Panicked \<and> (f_status u1 = Blocked \<longrightarrow> f_src u1 = []) \<and>
           (k \<le> length src \<and> \<not> list_ex ro_err (take k src) \<longrightarrow>
               f_status u1 = Running \<and> f_src u1 = drop k src) \<and>
           (length src \<le> k \<longrightarrow> written (f_events u1) = packets_of src)" if ok: "src_ok src"
    using forward_cons [OF forward_init_cons [OF ok], of k d1] forward_all_written [OF ok, of k d1]
          forward_running [OF forward_init_cons [OF ok], of d1 k]
    by (simp add: fwd_cons_def assms forward_init_def)
  have g: "\<not> q_panicked t1 \<and>
           (q_wpc t1 = W_Write n \<longrightarrow>
               step ActWriter t1 =
                 t1\<lparr>q_nwrites := Suc (q_nwrites t1),
                    q_events := write_event (q_dst t1) (q_nwrites t1) (q_heap t1)
                                  (take n (q_bufs t1)) @ q_events t1,
                    q_wpc := (if q_usePool t1 then W_Release 0 n else W_Wait)\<rparr> \<and>
               (q_usePool t1 \<and> n \<le> count_list sch ActWriter \<longrightarrow>
                  take (length (puts (q_events t1)) + n)
                       (puts (q_events (exec (ActWriter # sch) t1)))
                    = puts (q_events t1) @ take n (q_originalBufs t1)))" if ok: "src_ok src"
  proof -
    have wf: "qwf t1" unfolding assms by (rule exec_qwf [OF queued_init_qwf [OF ok]])
    then have "\<not> q_panicked t1" by (simp add: qwf_def)
    then show ?thesis
      using writer_write_effect [OF wf, of n] write_release_interleaved [OF wf, of n sch]
      by blast
  qed
  show ?thesis
    using a b c d e f g write_then_release [OF _ _ _ o, of n] by blast
qed

text \<open>
  C8 with a destination that fails every \<open>Write\<close>. After two iterations \<open>forward\<close>
  has handed both packets to \<open>Write\<close> and is still running. In the queued pipeline the
  failed \<open>Write\<close> is logged, the writer goes on to the release, and the buffer of the
  packet is put into the pool although the reader takes two steps in between.
\<close>

theorem C8_write_error_not_fatal_witness:
  "src_ok src_two_reads \<and>
   f_status (forward 2 (forward_init src_two_reads dst_reject)) = Running \<and>
   f_src (forward 2 (forward_init src_two_reads dst_reject)) = [] \<and>
   written (f_events (forward 2 (forward_init src_two_reads dst_reject)))
     = [[0, 0, 0, 0, 0, 0, 0, 0, 0, 0, 7], [0, 0, 0, 0, 0, 0, 0, 0, 0, 0, 8, 9]] \<and>
   q_usePool (exec sched_before_write (queued_init True [] src_two_reads dst_reject)) \<and>
   q_wpc (exec sched_before_write (queued_init True [] src_two_reads dst_reject)) = W_Write 1 \<and>
   q_events (step ActWriter (exec sched_before_write (queued_init True [] src_two_reads dst_reject)))
     = [EvLog LogWriteError, EvWrite [[0, 0, 0, 0, 0, 0, 0, 0, 0, 0, 7]] 0 True,
        EvPoll False, EvRecv, EvSend, EvGet \<lparr>s_addr = 129, s_len = 65545, s_cap = 65545\<rparr>,
        EvRead (replicate 128 1510) 1 False] \<and>
   q_wpc (step ActWriter (exec sched_before_write (queued_init True [] src_two_reads dst_reject)))
     = W_Release 0 1 \<and>
   take 1 (puts (q_events (exec (ActWriter # sched_put_late)
                     (exec sched_before_write (queued_init True [] src_two_reads dst_reject)))))
     = [\<lparr>s_addr = 129, s_len = 65545, s_cap = 65545\<rparr>] \<and>
   q_pool (exec (replicate (Suc 1) ActWriter)
             (exec sched_before_write (queued_init True [] src_two_reads dst_reject)))
     = [\<lparr>s_addr = 129, s_len = 65545, s_cap = 65545\<rparr>] \<and>
   q_wpc (exec (replicate (Suc 1) ActWriter)
            (exec sched_before_write (queued_init True [] src_two_reads dst_reject))) = W_Wait"
proof -
  let ?t = "exec sched_before_write (queued_init True [] src_two_reads dst_reject)"
  have ok: "src_ok src_two_reads"
    by (simp add: src_ok_def outcome_ok_def eff_ok_def src_two_reads_def pkt7_def pkt89_def
          batchSize_def mtuSize_def offset_def)
  have f: "(2::nat) \<le> length src_two_reads" "length src_two_reads \<le> 2"
     "\<not> list_ex ro_err (take 2 src_two_reads)" "drop 2 src_two_reads = []"
     "packets_of src_two_reads = [[0, 0, 0, 0, 0, 0, 0, 0, 0, 0, 7], [0, 0, 0, 0, 0, 0, 0, 0, 0, 0, 8, 9]]"
    by (simp_all add: src_two_reads_def pkt7_def pkt89_def)
  have h: "q_usePool ?t" "q_wpc ?t = W_Write 1" "\<not> q_panicked ?t" "puts (q_events ?t) = []"
     "take 1 (q_originalBufs ?t) = [\<lparr>s_addr = 129, s_len = 65545, s_cap = 65545\<rparr>]"
     "1 \<le> count_list sched_put_late ActWriter" "q_pool ?t = []"
    by (simp_all add: sched_before_write_def sched_put_late_def src_two_reads_def q_eval)
  have w: "write_event (q_dst ?t) (q_nwrites ?t) (q_heap ?t) (take 1 (q_bufs ?t)) @ q_events ?t
             = [EvLog LogWriteError, EvWrite [[0, 0, 0, 0, 0, 0, 0, 0, 0, 0, 7]] 0 True,
                EvPoll False, EvRecv, EvSend, EvGet \<lparr>s_addr = 129, s_len = 65545, s_cap = 65545\<rparr>,
                EvRead (replicate 128 1510) 1 False]"
    by (simp add: sched_before_write_def src_two_reads_def q_eval dst_reject_def)
  from C8_write_error_not_fatal [OF refl refl refl refl,
         where k = 2 and src = src_two_reads and ?d1.0 = dst_reject and ?d2.0 = dst_accept
           and sched = sched_before_write and p = True and caps = "[]" and n = 1
           and sch = sched_put_late] ok f h w
  show ?thesis by (simp del: step.simps exec.simps)
qed

section \<open>The capacity of pooled buffers\<close>

text \<open>
  \<open>forwardWithChannel\<close> creates the pool empty, with \<open>New\<close> making buffers of
  \<open>maxPktSize\<close> bytes; the only \<open>Put\<close> of the package is the one of the writer. The other
  direction runs the same code on the same pool, so what it puts has that capacity too.
\<close>

fun env_full :: "action \<Rightarrow> bool" where
  "env_full (ActPoolPut c d) = (c = maxPktSize)"
| "env_full _ = True"

text \<open>Every \<open>Get\<close> of the trace returned a buffer of capacity \<open>maxPktSize\<close>.\<close>

fun get_full :: "event \<Rightarrow> bool" where
  "get_full (EvGet b) = (s_cap b = maxPktSize)"
| "get_full _ = True"

definition gets_full :: "event list \<Rightarrow> bool" where
  "gets_full es = list_all get_full es"

text \<open>\<open>got es b\<close>: the buffer \<open>b\<close>, of capacity \<open>maxPktSize\<close>, was returned by a \<open>Get\<close> of \<open>es\<close>.\<close>

definition got :: "event list \<Rightarrow> slice \<Rightarrow> bool" where
  "got es b = (s_cap b = maxPktSize \<and> EvGet b \<in> set es)"

text \<open>
  Every \<open>Put\<close> of the trace (newest first) returns a buffer that an earlier \<open>Get\<close> had
  handed out: a buffer made by anything else, such as the replacement of the fallback
  branch, is not put.
\<close>

fun puts_got :: "event list \<Rightarrow> bool" where
  "puts_got [] = True"
| "puts_got (EvPut b # es) = (got es b \<and> puts_got es)"
| "puts_got (_ # es) = puts_got es"

text \<open>The packet buffers the two tasks hold.\<close>

fun r_held :: "rpc \<Rightarrow> slice list" where
  "r_held (R_Fill i b) = [b]"
| "r_held (R_Send i p) = [buf p]"
| "r_held _ = []"

fun w_orig :: "wpc \<Rightarrow> slice list \<Rightarrow> slice list" where
  "w_orig W_Wait obs = []"
| "w_orig (W_Collect n) obs = take n obs"
| "w_orig (W_Write n) obs = take n obs"
| "w_orig (W_Release i n) obs = take n obs"

fun releasing :: "wpc \<Rightarrow> bool" where
  "releasing (W_Release i n) = (i < n)"
| "releasing _ = True"

definition pool_inv :: "qstate \<Rightarrow> bool" where
  "pool_inv s =
     (q_usePool s \<and>
      list_all (\<lambda>b. s_cap b = mtuSize + offset) (q_readBufs s) \<and>
      list_all (\<lambda>b. s_cap b = maxPktSize) (q_pool s) \<and>
      list_all (got (q_events s)) (r_held (q_rpc s)) \<and>
      list_all (\<lambda>p. got (q_events s) (buf p)) (q_chan s) \<and>
      list_all (got (q_events s)) (w_orig (q_wpc s) (q_originalBufs s)) \<and>
      releasing (q_wpc s) \<and>
      gets_full (q_events s) \<and> puts_got (q_events s) \<and>
      (EvLog LogBufferTooSmall \<in> set (q_events s) \<longrightarrow> q_panicked s))"

lemma got_Cons: "got es b \<Longrightarrow> got (e # es) b"
  by (simp add: got_def)

lemma got_new: "s_cap b = maxPktSize \<Longrightarrow> got (EvGet b # es) b"
  by (simp add: got_def)

lemma got_all_Cons: "list_all (got es) bs \<Longrightarrow> list_all (got (e # es)) bs"
  by (simp add: list_all_iff got_Cons)

lemma got_pkts_Cons:
  "list_all (\<lambda>p. got es (buf p)) ps \<Longrightarrow> list_all (\<lambda>p. got (e # es) (buf p)) ps"
  by (simp add: list_all_iff got_Cons)

lemma got_write_event [simp]: "got (write_event d k h bs @ es) b = got es b"
  by (auto simp: got_def write_event_def Let_def)

lemma got_write_event_fun [simp]: "got (write_event d k h bs @ es) = got es"
  by (rule ext) simp

lemma gets_full_write_event [simp]: "gets_full (write_event d k h bs @ es) = gets_full es"
  by (simp add: gets_full_def write_event_def Let_def)

lemma puts_got_write_event [simp]: "puts_got (write_event d k h bs @ es) = puts_got es"
  by (simp add: write_event_def Let_def)

lemma warning_write_event [simp]:
  "EvLog LogBufferTooSmall \<in> set (write_event d k h bs @ es) = (EvLog LogBufferTooSmall \<in> set es)"
  by (simp add: write_event_def Let_def)

text \<open>Adding an event that is neither a \<open>Get\<close>, a \<open>Put\<close> nor the warning.\<close>

fun plain :: "event \<Rightarrow> bool" where
  "plain (EvGet b) = False"
| "plain (EvPut b) = False"
| "plain (EvLog LogBufferTooSmall) = False"
| "plain _ = True"

lemma pool_inv_plain:
  assumes "pool_inv s" "plain e"
  shows "pool_inv (s\<lparr>q_events := e # q_events s\<rparr>)"
  using assms
  by (cases e rule: plain.cases)
     (simp_all add: pool_inv_def got_all_Cons got_pkts_Cons gets_full_def)


lemma reader_step_pool:
  assumes "pool_inv s"
  shows "pool_inv (readToChannel_step c s)"
proof (cases "q_rpc s")
  case R_Read
  show ?thesis
  proof (cases "q_src s")
    case Nil
    then show ?thesis using assms R_Read by (simp add: readToChannel_step_def reader_read_def)
  next
    case (Cons ro rest)
    obtain h bufs2 sizes2 where dr: "dev_read 0 (ro_effs ro) (q_heap s, q_readBufs s, q_sizes s) = (h, bufs2, sizes2)"
      by (cases "dev_read 0 (ro_effs ro) (q_heap s, q_readBufs s, q_sizes s)") auto
    have "list_all (\<lambda>b. s_cap b = mtuSize + offset) bufs2"
      using dev_read_addr_cap [OF dr] assms by (simp add: list_all_cap_map pool_inv_def)
    then show ?thesis
      using assms R_Read Cons dr
      by (auto simp: pool_inv_def readToChannel_step_def reader_read_def emit_def Let_def
                     got_all_Cons got_pkts_Cons gets_full_def)
  qed
next
  case (R_Acquire i)
  show ?thesis
  proof (cases "c < length (q_pool s)")
    case True
    then have "s_cap (q_pool s ! c) = maxPktSize"
      using assms by (auto simp: pool_inv_def list_all_iff)
    then show ?thesis
      using assms R_Acquire True
      by (auto simp: pool_inv_def readToChannel_step_def reader_acquire_def emit_def
                     got_all_Cons got_pkts_Cons gets_full_def list_all_remove_nth got_new)
  next
    case False
    then show ?thesis
      using assms R_Acquire
      by (auto simp: pool_inv_def readToChannel_step_def reader_acquire_def emit_def alloc_def
                     got_all_Cons got_pkts_Cons gets_full_def got_new make_slice_def)
  qed
next
  case (R_Fill i b)
  show ?thesis
  proof (cases "i < length (q_sizes s) \<and> i < length (q_readBufs s)")
    case False
    then show ?thesis using assms R_Fill
      by (auto simp: pool_inv_def readToChannel_step_def reader_fill_def panic_def)
  next
    case True
    let ?sz = "int64 (q_sizes s ! i + int offset)"
    have cb: "s_cap b = maxPktSize" using assms R_Fill by (simp add: pool_inv_def got_def)
    have cr: "s_cap (q_readBufs s ! i) = mtuSize + offset"
      using assms True by (auto simp: pool_inv_def list_all_iff)
    show ?thesis
    proof (cases "int (s_cap b) < ?sz")
      case big: True
      then have "reslice (q_readBufs s ! i) ?sz = None"
        using cb cr by (simp add: reslice_def maxPktSize_def mtuSize_def offset_def)
      then show ?thesis
        using assms R_Fill True big
        by (auto simp: pool_inv_def readToChannel_step_def reader_fill_def panic_def emit_def
                       alloc_def Let_def got_all_Cons got_pkts_Cons gets_full_def got_Cons)
    next
      case fits: False
      then show ?thesis
        using assms R_Fill True
        by (auto simp: pool_inv_def readToChannel_step_def reader_fill_def panic_def Let_def
                 split: option.splits)
    qed
  qed
next
  case (R_Send i p)
  then show ?thesis
    using assms
    by (auto simp: pool_inv_def readToChannel_step_def reader_send_def emit_def
                   got_all_Cons got_pkts_Cons gets_full_def got_Cons)
next
  case R_Stopped
  then show ?thesis using assms by (simp add: readToChannel_step_def)
qed


lemma w_orig_store:
  "n < length obs \<Longrightarrow> w_orig (after_store (Suc n)) (obs[n := x]) = take n obs @ [x]"
  by (simp add: after_store_def take_Suc_update)

lemma releasing_after_store [simp]: "releasing (after_store n)"
  by (simp add: after_store_def)

lemma writer_store_pool:
  assumes "pool_inv s" "q_chan s = pkt # rest" "list_all (got (q_events s)) (take n (q_originalBufs s))"
    and "writer_store n pkt (emit e (s\<lparr>q_chan := rest\<rparr>)) = Some s1" "plain e"
  shows "pool_inv (s1\<lparr>q_wpc := after_store (Suc n)\<rparr>)"
proof -
  have n: "n < length (q_originalBufs s)"
    using assms(4) by (auto simp: writer_store_def emit_def split: if_splits)
  obtain b where s1: "s1 = (emit e (s\<lparr>q_chan := rest\<rparr>))
                        \<lparr>q_bufs := (q_bufs s)[n := b], q_originalBufs := (q_originalBufs s)[n := buf pkt]\<rparr>"
    using assms(1,4) by (auto simp: writer_store_def emit_def pool_inv_def split: if_splits option.splits)
  have g: "got (q_events s) (buf pkt)" "list_all (\<lambda>p. got (q_events s) (buf p)) rest"
    using assms(1,2) by (simp_all add: pool_inv_def)
  have "list_all (got (q_events s)) (take n (q_originalBufs s) @ [buf pkt])"
    using assms(3) g by simp
  then have w: "list_all (got (e # q_events s))
                  (w_orig (after_store (Suc n)) ((q_originalBufs s)[n := buf pkt]))"
    using n by (simp add: w_orig_store got_all_Cons del: list_all_append)
  have "pool_inv (s\<lparr>q_events := e # q_events s\<rparr>)" using assms(1,5) by (rule pool_inv_plain)
  then show ?thesis
    using w g assms(2)
    by (simp add: s1 emit_def pool_inv_def got_pkts_Cons)
qed

lemma writer_step_pool:
  assumes "pool_inv s"
  shows "pool_inv (writeFromChannel_step s)"
proof (cases "q_wpc s")
  case W_Wait
  show ?thesis
  proof (cases "q_chan s")
    case Nil
    then show ?thesis using assms W_Wait by (simp add: writeFromChannel_step_def writer_wait_def)
  next
    case (Cons pkt rest)
    show ?thesis
    proof (cases "writer_store 0 pkt (emit EvRecv (s\<lparr>q_chan := rest\<rparr>))")
      case None
      have "pool_inv (s\<lparr>q_events := EvRecv # q_events s\<rparr>)" using assms by (rule pool_inv_plain) simp
      then show ?thesis
        using W_Wait Cons None
        by (simp add: writeFromChannel_step_def writer_wait_def panic_def emit_def pool_inv_def)
    next
      case (Some s1)
      have "pool_inv (s1\<lparr>q_wpc := after_store (Suc 0)\<rparr>)"
        using assms Cons _ Some by (rule writer_store_pool) simp_all
      then show ?thesis using W_Wait Cons Some
        by (simp add: writeFromChannel_step_def writer_wait_def)
    qed
  qed
next
  case (W_Collect n)
  show ?thesis
  proof (cases "q_chan s")
    case Nil
    have "pool_inv (s\<lparr>q_events := EvPoll False # q_events s\<rparr>)" using assms by (rule pool_inv_plain) simp
    then show ?thesis using W_Collect Nil
      by (simp add: writeFromChannel_step_def writer_collect_def emit_def pool_inv_def)
  next
    case (Cons pkt rest)
    show ?thesis
    proof (cases "writer_store n pkt (emit (EvPoll True) (s\<lparr>q_chan := rest\<rparr>))")
      case None
      have "pool_inv (s\<lparr>q_events := EvPoll True # q_events s\<rparr>)" using assms by (rule pool_inv_plain) simp
      then show ?thesis
        using W_Collect Cons None
        by (simp add: writeFromChannel_step_def writer_collect_def panic_def emit_def pool_inv_def)
    next
      case (Some s1)
      have "list_all (got (q_events s)) (take n (q_originalBufs s))"
        using assms W_Collect by (simp add: pool_inv_def)
      have pl: "plain (EvPoll True)" by simp
      have g: "list_all (got (q_events s)) (take n (q_originalBufs s))"
        using assms W_Collect by (simp add: pool_inv_def)
      have "pool_inv (s1\<lparr>q_wpc := after_store (Suc n)\<rparr>)"
        by (rule writer_store_pool [OF assms Cons g Some pl])
      then show ?thesis using W_Collect Cons Some
        by (simp add: writeFromChannel_step_def writer_collect_def)
    qed
  qed
next
  case (W_Write n)
  then show ?thesis
    using assms
    by (auto simp: writeFromChannel_step_def writer_write_def panic_def pool_inv_def
                   write_event_no_warning)
next
  case (W_Release i n)
  show ?thesis
  proof (cases "i < length (q_originalBufs s)")
    case False
    then show ?thesis using assms W_Release
      by (auto simp: writeFromChannel_step_def writer_release_def panic_def pool_inv_def)
  next
    case True
    have "i < n" using assms W_Release by (simp add: pool_inv_def)
    then have "q_originalBufs s ! i \<in> set (take n (q_originalBufs s))"
      using True by (auto simp: in_set_conv_nth intro!: exI [of _ i])
    then have g: "got (q_events s) (q_originalBufs s ! i)"
      using assms W_Release by (auto simp: pool_inv_def list_all_iff)
    then have c: "s_cap (q_originalBufs s ! i) = maxPktSize" by (simp add: got_def)
    show ?thesis
      using assms W_Release True g c
      by (auto simp: writeFromChannel_step_def writer_release_def emit_def pool_inv_def
                     got_all_Cons got_pkts_Cons gets_full_def)
  qed
qed

lemma step_pool:
  assumes "pool_inv s" "env_full a"
  shows "pool_inv (step a s)"
proof (cases "q_panicked s")
  case True
  then show ?thesis using assms by simp
next
  case False
  show ?thesis
  proof (cases a)
    case (ActReader c)
    then show ?thesis using assms False by (simp add: reader_step_pool)
  next
    case ActWriter
    then show ?thesis using assms False by (simp add: writer_step_pool)
  next
    case (ActPoolDrop k)
    then show ?thesis using assms False
      by (simp add: pool_drop_def) (simp add: pool_inv_def list_all_remove_nth)
  next
    case (ActPoolPut c d)
    then show ?thesis using assms False
      by (simp add: pool_put_def) (simp add: pool_inv_def make_slice_def)
  qed
qed

lemma exec_pool: "pool_inv s \<Longrightarrow> list_all env_full sched \<Longrightarrow> pool_inv (exec sched s)"
  by (induction sched arbitrary: s) (auto simp: step_pool simp del: step.simps)

lemma queued_init_pool: "pool_inv (queued_init True [] src dst)"
  by (simp add: pool_inv_def queued_init_def gets_full_def list_all_iff)
     (auto dest: set_make_bufs)








text \<open>
  Outside that contract the branch is entered only with a size above \<open>maxPktSize\<close>, and
  \<open>readBufs[i][:size]\<close> then panics, the read buffers having \<open>mtuSize + offset\<close> bytes:
  no replacement buffer reaches the channel.
\<close>

lemma warning_only_with_panic:
  assumes "list_all env_full sched"
    and "EvLog LogBufferTooSmall \<in> set (q_events (exec sched (queued_init True [] src dst)))"
  shows "q_panicked (exec sched (queued_init True [] src dst))"
  using exec_pool [OF queued_init_pool assms(1), of src dst] assms(2) by (simp add: pool_inv_def)




section \<open>Who holds which buffer\<close>

text \<open>
  The packet buffers the writer holds: those of the batch it is assembling or writing,
  and after the \<open>Write\<close> those it has still to put into the pool.
\<close>

fun w_held :: "wpc \<Rightarrow> slice list \<Rightarrow> slice list \<Rightarrow> slice list" where
  "w_held W_Wait bufs obs = []"
| "w_held (W_Collect n) bufs obs = take n bufs"
| "w_held (W_Write n) bufs obs = take n bufs"
| "w_held (W_Release i n) bufs obs = drop i (take n obs)"

text \<open>
  Every array of the direction is in exactly one place: a read buffer, the buffer the
  reader holds, a queued packet, a buffer of the writer, or the pool.
\<close>

definition owned :: "qstate \<Rightarrow> slice list" where
  "owned s = q_readBufs s @ r_held (q_rpc s) @ map buf (q_chan s) @
             w_held (q_wpc s) (q_bufs s) (q_originalBufs s) @ q_pool s"

definition own_ok :: "qstate \<Rightarrow> bool" where
  "own_ok s = (distinct (map s_addr (owned s)) \<and> list_all (\<lambda>b. s_addr b < q_next s) (owned s))"

text \<open>
  The packets on their way, oldest first: those of the batch of the writer, those in
  the queue, and those of the last \<open>Read\<close> the reader has still to send.
\<close>

fun w_pay :: "wpc \<Rightarrow> slice list \<Rightarrow> slice list" where
  "w_pay (W_Collect n) bufs = take n bufs"
| "w_pay (W_Write n) bufs = take n bufs"
| "w_pay _ bufs = []"

fun r_pend :: "rpc \<Rightarrow> slice list \<Rightarrow> int list \<Rightarrow> int \<Rightarrow> slice list" where
  "r_pend (R_Acquire i) rb sz n = map (rd_slice rb sz) [i..<nat n]"
| "r_pend (R_Fill i b) rb sz n = map (rd_slice rb sz) [i..<nat n]"
| "r_pend (R_Send i p) rb sz n = pkt_slice p # map (rd_slice rb sz) [Suc i..<nat n]"
| "r_pend _ rb sz n = []"

definition in_flight_slices :: "qstate \<Rightarrow> slice list" where
  "in_flight_slices s = w_pay (q_wpc s) (q_bufs s) @ map pkt_slice (q_chan s) @
                        r_pend (q_rpc s) (q_readBufs s) (q_sizes s) (q_n s)"

definition in_flight :: "qstate \<Rightarrow> byte list list" where
  "in_flight s = map (slice_bytes (q_heap s)) (in_flight_slices s)"

text \<open>The packets the source has still to deliver.\<close>

definition unread :: "qstate \<Rightarrow> byte list list" where
  "unread s = (if q_rpc s = R_Stopped then [] else packets_of (q_src s))"

text \<open>
  What has been written, followed by what is on its way, followed by what is still to
  be read, is the sequence of the packets of the source.
\<close>

definition conserved :: "byte list list \<Rightarrow> qstate \<Rightarrow> bool" where
  "conserved all s = (written (q_events s) @ in_flight s @ unread s = all)"

definition qinv :: "byte list list \<Rightarrow> qstate \<Rightarrow> bool" where
  "qinv all s = (qwf s \<and> own_ok s \<and> conserved all s)"

lemma payload_frame:
  "\<forall>b \<in> set xs. h' (s_addr b) = h (s_addr b) \<Longrightarrow> map (slice_bytes h') xs = map (slice_bytes h) xs"
  by (auto intro: slice_bytes_cong)

lemma pkt_slice_addr [simp]: "s_addr (pkt_slice p) = s_addr (buf p)"
  by (simp add: pkt_slice_def)

lemma rd_slice_addr [simp]: "s_addr (rd_slice rb sz j) = s_addr (rb ! j)"
  by (simp add: rd_slice_def)

text \<open>The in-flight slices live in owned arrays.\<close>

lemma w_pay_held: "set (w_pay w bufs) \<subseteq> set (w_held w bufs obs)"
  by (cases w) auto

lemma in_flight_addrs:
  assumes "qwf s"
  shows "s_addr ` set (in_flight_slices s) \<subseteq> s_addr ` set (owned s)"
proof -
  have w: "s_addr ` set (w_pay (q_wpc s) (q_bufs s)) \<subseteq> s_addr ` set (owned s)"
    using w_pay_held [of "q_wpc s" "q_bufs s" "q_originalBufs s"] by (auto simp: owned_def)
  have c: "s_addr ` set (map pkt_slice (q_chan s)) \<subseteq> s_addr ` set (owned s)"
    by (auto simp: owned_def)
  have rd: "s_addr (rd_slice (q_readBufs s) (q_sizes s) j) \<in> s_addr ` set (owned s)"
    if "int j < q_n s" "q_n s \<le> int batchSize" for j
  proof -
    have "j < length (q_readBufs s)" using that assms by (simp add: qwf_def)
    then show ?thesis by (simp add: owned_def)
  qed
  have r: "s_addr ` set (r_pend (q_rpc s) (q_readBufs s) (q_sizes s) (q_n s)) \<subseteq> s_addr ` set (owned s)"
  proof (cases "q_rpc s")
    case (R_Acquire i)
    then show ?thesis using assms rd by (auto simp: qwf_def rpc_ok_def)
  next
    case (R_Fill i b)
    then show ?thesis using assms rd by (auto simp: qwf_def rpc_ok_def)
  next
    case (R_Send i p)
    have "s_addr (buf p) \<in> s_addr ` set (owned s)" using R_Send by (simp add: owned_def)
    then show ?thesis using R_Send assms rd by (auto simp: qwf_def rpc_ok_def)
  qed simp_all
  show ?thesis using w c r by (simp add: in_flight_slices_def image_Un)
qed

text \<open>A step that changes the store only at addresses that are not owned, or not yet
  allocated, leaves the in-flight payloads alone.\<close>

lemma in_flight_fresh:
  assumes "qwf s" "own_ok s" "\<forall>a < q_next s. h' a = q_heap s a"
  shows "map (slice_bytes h') (in_flight_slices s) = in_flight s"
proof -
  have "\<forall>b \<in> set (in_flight_slices s). s_addr b < q_next s"
    using in_flight_addrs [OF assms(1)] assms(2) by (auto simp: own_ok_def list_all_iff)
  then show ?thesis using assms(3) unfolding in_flight_def by (intro payload_frame) auto
qed

lemma distinct_mset_subset: "distinct xs \<Longrightarrow> mset ys \<subseteq># mset xs \<Longrightarrow> distinct ys"
proof -
  assume d: "distinct xs" and s: "mset ys \<subseteq># mset xs"
  have "count (mset ys) a = (if a \<in> set ys then 1 else 0)" for a
  proof (cases "a \<in> set ys")
    case True
    then have "a \<in># mset ys" by simp
    then have "0 < count (mset ys) a" by (simp only: count_greater_zero_iff)
    then have "1 \<le> count (mset ys) a" by simp
    moreover have "count (mset ys) a \<le> count (mset xs) a" using s by (rule mset_subset_eq_count)
    moreover have "count (mset xs) a \<le> 1" using d by (simp add: distinct_count_atmost_1)
    ultimately have "count (mset ys) a = 1" by linarith
    then show ?thesis using True by simp
  next
    case False
    then show ?thesis by (simp add: count_eq_zero_iff)
  qed
  then show "distinct ys" by (simp add: distinct_count_atmost_1)
qed

lemma own_ok_sub:
  assumes "own_ok s" "mset (map s_addr (owned s')) \<subseteq># mset (map s_addr (owned s))"
    and "q_next s \<le> q_next s'"
  shows "own_ok s'"
proof -
  have "distinct (map s_addr (owned s'))"
    using assms(1,2) by (auto simp: own_ok_def intro: distinct_mset_subset)
  moreover have "set (map s_addr (owned s')) \<subseteq> set (map s_addr (owned s))"
    using assms(2) by (metis set_mset_mono set_mset_mset)
  then have "\<forall>b \<in> set (owned s'). s_addr b < q_next s'"
    using assms(1,3) by (fastforce simp: own_ok_def list_all_iff)
  ultimately show ?thesis by (simp add: own_ok_def list_all_iff)
qed

lemma own_ok_fresh:
  assumes "own_ok s"
    and "mset (map s_addr (owned s')) \<subseteq># add_mset (q_next s) (mset (map s_addr (owned s)))"
    and "q_next s < q_next s'"
  shows "own_ok s'"
proof -
  have n: "q_next s \<notin> set (map s_addr (owned s))"
    using assms(1) by (auto simp: own_ok_def list_all_iff)
  have "distinct (q_next s # map s_addr (owned s))" using assms(1) n by (simp add: own_ok_def)
  moreover have "mset (map s_addr (owned s')) \<subseteq># mset (q_next s # map s_addr (owned s))"
    using assms(2) by simp
  ultimately have "distinct (map s_addr (owned s'))" by (rule distinct_mset_subset)
  moreover have "set (map s_addr (owned s')) \<subseteq> set (q_next s # map s_addr (owned s))"
    using assms(2) by (metis set_mset_mono set_mset_mset mset.simps(2))
  then have "\<forall>b \<in> set (owned s'). s_addr b < q_next s'"
    using assms(1,3) by (fastforce simp: own_ok_def list_all_iff)
  ultimately show ?thesis by (simp add: own_ok_def list_all_iff)
qed

lemma mset_remove_nth:
  "c < length xs \<Longrightarrow> add_mset (xs ! c) (mset (remove_nth c xs)) = mset xs"
proof -
  assume c: "c < length xs"
  have "mset xs = mset (take c xs @ xs ! c # drop (Suc c) xs)"
    using c by (simp add: id_take_nth_drop [symmetric])
  then show ?thesis by (simp add: remove_nth_def)
qed

lemma mset_map_remove_nth:
  "c < length xs \<Longrightarrow> add_mset (f (xs ! c)) (mset (map f (remove_nth c xs))) = mset (map f xs)"
  using mset_remove_nth [of c xs] by (metis image_mset_add_mset mset_map)

lemma own_reader:
  assumes "qwf s" "own_ok s"
  shows "own_ok (readToChannel_step c s)"
proof (cases "q_rpc s")
  case R_Read
  show ?thesis
  proof (cases "q_src s")
    case Nil
    then show ?thesis using assms R_Read by (simp add: readToChannel_step_def reader_read_def)
  next
    case (Cons ro rest)
    obtain h bufs2 sizes2 where dr: "dev_read 0 (ro_effs ro) (q_heap s, q_readBufs s, q_sizes s) = (h, bufs2, sizes2)"
      by (cases "dev_read 0 (ro_effs ro) (q_heap s, q_readBufs s, q_sizes s)") auto
    note e = reader_read_effect [OF assms(1) R_Read Cons dr]
    show ?thesis
      by (rule own_ok_sub [OF assms(2)]) (simp_all add: e(4) owned_def R_Read)
  qed
next
  case (R_Acquire i)
  show ?thesis
  proof (cases "q_usePool s \<and> c < length (q_pool s)")
    case True
    have "mset (map s_addr (owned (readToChannel_step c s))) = mset (map s_addr (owned s))"
      using True R_Acquire mset_map_remove_nth [of c "q_pool s" s_addr]
      by (simp add: readToChannel_step_def reader_acquire_def emit_def owned_def)
    then show ?thesis
      using True R_Acquire
      by (intro own_ok_sub [OF assms(2)])
         (simp_all add: readToChannel_step_def reader_acquire_def emit_def)
  next
    case False
    then show ?thesis using R_Acquire
      by (intro own_ok_fresh [OF assms(2)])
         (auto simp: readToChannel_step_def reader_acquire_def emit_def alloc_def owned_def
               make_slice_def)
  qed
next
  case (R_Fill i b)
  have i: "i < batchSize" "i < length (q_sizes s)" "i < length (q_readBufs s)"
    using assms R_Fill by (auto simp: qwf_def rpc_ok_def)
  have so: "size_ok (q_sizes s ! i)" using assms(1) i by (auto simp: qwf_def list_all_iff)
  have sz: "int64 (q_sizes s ! i + int offset) = q_sizes s ! i + int offset"
    using so by (rule size_ok_int64)
  have "s_cap (q_readBufs s ! i) = mtuSize + offset"
    using assms(1) i by (auto simp: qwf_def list_all_iff)
  then have rs: "reslice (q_readBufs s ! i) (q_sizes s ! i + int offset)
              = Some ((q_readBufs s ! i)\<lparr>s_len := nat (q_sizes s ! i + int offset)\<rparr>)"
    using so by (simp add: reslice_def size_ok_def)
  show ?thesis
  proof (cases "int (s_cap b) < q_sizes s ! i + int offset")
    case True
    then show ?thesis using R_Fill i
      by (intro own_ok_fresh [OF assms(2)])
         (auto simp: readToChannel_step_def reader_fill_def sz rs emit_def alloc_def owned_def
               make_slice_def Let_def)
  next
    case False
    then show ?thesis using R_Fill i
      by (intro own_ok_sub [OF assms(2)])
         (auto simp: readToChannel_step_def reader_fill_def sz rs owned_def Let_def)
  qed
next
  case (R_Send i p)
  then show ?thesis
    by (intro own_ok_sub [OF assms(2)])
       (auto simp: readToChannel_step_def reader_send_def emit_def owned_def)
next
  case R_Stopped
  then show ?thesis using assms by (simp add: readToChannel_step_def)
qed


lemma w_held_store:
  "n < length bufs \<Longrightarrow>
   w_held (if Suc n < m then W_Collect (Suc n) else W_Write (Suc n)) (bufs[n := x]) obs
     = take n bufs @ [x]"
  by (simp add: take_Suc_update)

lemma mset_remove_nth_sub: "mset (remove_nth k xs) \<subseteq># mset xs"
proof (cases "k < length xs")
  case True
  then show ?thesis using mset_remove_nth [of k xs] by (metis mset_subset_eq_add_mset_cancel
        subset_mset.order_refl mset_subset_eq_insertD subset_mset.less_imp_le)
next
  case False
  then show ?thesis by (simp add: remove_nth_def)
qed

lemma own_writer:
  assumes "qwf s" "own_ok s"
  shows "own_ok (writeFromChannel_step s)"
proof (cases "q_wpc s")
  case W_Wait
  show ?thesis
  proof (cases "q_chan s")
    case Nil
    then show ?thesis using assms W_Wait by (simp add: writeFromChannel_step_def writer_wait_def)
  next
    case (Cons pkt rest)
    have l: "0 < length (q_bufs s)" using assms(1) by (simp add: qwf_def batchSize_def)
    show ?thesis
      using W_Wait Cons l
      by (intro own_ok_sub [OF assms(2)])
         (simp_all add: writer_wait_effect [OF assms(1) W_Wait Cons] owned_def take1_update)
  qed
next
  case (W_Collect n)
  show ?thesis
  proof (cases "q_chan s")
    case Nil
    then show ?thesis using W_Collect
      by (intro own_ok_sub [OF assms(2)])
         (simp_all add: writeFromChannel_step_def writer_collect_def emit_def owned_def)
  next
    case (Cons pkt rest)
    have l: "n < length (q_bufs s)" using assms(1) W_Collect by (simp add: qwf_def wpc_ok_def)
    note e = writer_collect_effect [OF assms(1) W_Collect Cons]
    have w: "w_held (q_wpc (writeFromChannel_step s)) (q_bufs (writeFromChannel_step s))
               (q_originalBufs (writeFromChannel_step s)) = take n (q_bufs s) @ [pkt_slice pkt]"
      using w_held_store [OF l, of batchSize "pkt_slice pkt"] by (simp add: e)
    have o: "q_readBufs (writeFromChannel_step s) = q_readBufs s"
      "q_rpc (writeFromChannel_step s) = q_rpc s" "q_chan (writeFromChannel_step s) = rest"
      "q_pool (writeFromChannel_step s) = q_pool s" "q_next (writeFromChannel_step s) = q_next s"
      by (simp_all add: e)
    show ?thesis
      using W_Collect Cons
      by (intro own_ok_sub [OF assms(2)]) (simp_all add: owned_def w o)
  qed
next
  case (W_Write n)
  have n: "0 < n" "n \<le> length (q_bufs s)" using assms(1) W_Write by (simp_all add: qwf_def wpc_ok_def)
  show ?thesis
  proof (cases "q_usePool s")
    case True
    have "take n (q_originalBufs s) = map (\<lambda>b. b\<lparr>s_len := s_cap b\<rparr>) (take n (q_bufs s))"
      using assms(1) W_Write True by (simp add: qwf_def wpc_ok_def orig_full_def)
    then have "map s_addr (take n (q_originalBufs s)) = map s_addr (take n (q_bufs s))"
      by (simp add: comp_def)
    then show ?thesis
      using W_Write True n
      by (intro own_ok_sub [OF assms(2)])
         (simp_all add: writeFromChannel_step_def writer_write_def owned_def)
  next
    case False
    then show ?thesis
      using W_Write n
      by (intro own_ok_sub [OF assms(2)])
         (simp_all add: writeFromChannel_step_def writer_write_def owned_def)
  qed
next
  case (W_Release i n)
  have i: "i < length (q_originalBufs s)" "i < n" "n \<le> length (q_originalBufs s)"
    using assms W_Release by (simp_all add: qwf_def wpc_ok_def)
  have d: "drop i (take n (q_originalBufs s))
             = q_originalBufs s ! i # drop (Suc i) (take n (q_originalBufs s))"
    using i by (simp add: Cons_nth_drop_Suc [symmetric])
  have z: "\<not> Suc i < n \<Longrightarrow> drop (Suc i) (take n (q_originalBufs s)) = []" by simp
  show ?thesis
    using W_Release i
    by (intro own_ok_sub [OF assms(2)])
       (auto simp: writeFromChannel_step_def writer_release_def emit_def owned_def d
             simp del: drop_take)
qed

lemma own_step:
  assumes "qwf s" "own_ok s"
  shows "own_ok (step a s)"
proof -
  have p: "\<not> q_panicked s" using assms by (simp add: qwf_def)
  show ?thesis
  proof (cases a)
    case (ActReader c)
    then show ?thesis using assms p by (simp add: own_reader)
  next
    case ActWriter
    then show ?thesis using assms p by (simp add: own_writer)
  next
    case (ActPoolDrop k)
    show ?thesis
    proof (cases "q_usePool s")
      case True
      have "mset (map s_addr (remove_nth k (q_pool s))) \<subseteq># mset (map s_addr (q_pool s))"
        using mset_remove_nth_sub [of k "q_pool s"] by (simp add: image_mset_subseteq_mono)
      then show ?thesis
        using ActPoolDrop p True
        by (intro own_ok_sub [OF assms(2)]) (simp_all add: pool_drop_def owned_def)
    next
      case False
      then show ?thesis using ActPoolDrop p assms by (simp add: pool_drop_def)
    qed
  next
    case (ActPoolPut c d)
    show ?thesis
    proof (cases "q_usePool s")
      case True
      then show ?thesis
        using ActPoolPut p
        by (intro own_ok_fresh [OF assms(2)]) (simp_all add: pool_put_def owned_def make_slice_def)
    next
      case False
      then show ?thesis using ActPoolPut p assms by (simp add: pool_put_def)
    qed
  qed
qed

section \<open>No packet is lost, repeated or overtaken\<close>

lemma conservedI:
  assumes "conserved all s"
    and "written (q_events s') = written (q_events s) @ X"
    and "X @ in_flight s' @ unread s' = in_flight s @ unread s"
  shows "conserved all s'"
  using assms by (simp add: conserved_def)

text \<open>What the writer and the queue hold is apart from the read buffers and from the
  buffer the reader is filling.\<close>

lemma distinct_parts:
  "distinct (map f a @ map f b @ map f c @ map f d @ map f e) \<Longrightarrow>
   f ` set a \<inter> f ` set c = {} \<and> f ` set a \<inter> f ` set d = {} \<and>
   f ` set b \<inter> f ` set c = {} \<and> f ` set b \<inter> f ` set d = {}"
  by auto

lemma disj_parts:
  "R \<inter> C = {} \<and> R \<inter> W = {} \<and> H \<inter> C = {} \<and> H \<inter> W = {} \<Longrightarrow> a \<in> W \<union> C \<Longrightarrow>
   a \<notin> R \<and> a \<notin> H"
  by blast

lemma own_disj:
  assumes "own_ok s"
  shows "\<forall>x \<in> set (w_pay (q_wpc s) (q_bufs s) @ map pkt_slice (q_chan s)).
           s_addr x \<notin> s_addr ` set (q_readBufs s) \<and>
           s_addr x \<notin> s_addr ` set (r_held (q_rpc s))"
proof
  let ?R = "s_addr ` set (q_readBufs s)"
  let ?H = "s_addr ` set (r_held (q_rpc s))"
  let ?C = "s_addr ` set (map buf (q_chan s))"
  let ?W = "s_addr ` set (w_held (q_wpc s) (q_bufs s) (q_originalBufs s))"
  fix x assume "x \<in> set (w_pay (q_wpc s) (q_bufs s) @ map pkt_slice (q_chan s))"
  then have "s_addr x \<in> s_addr ` set (w_pay (q_wpc s) (q_bufs s)) \<union>
                         s_addr ` set (map pkt_slice (q_chan s))"
    by auto
  moreover have "s_addr ` set (w_pay (q_wpc s) (q_bufs s)) \<subseteq> ?W"
    using w_pay_held [of "q_wpc s" "q_bufs s" "q_originalBufs s"] by auto
  moreover have "s_addr ` set (map pkt_slice (q_chan s)) = ?C"
    by (simp add: image_image)
  ultimately have x: "s_addr x \<in> ?W \<union> ?C" by blast
  have "distinct (map s_addr (q_readBufs s) @ map s_addr (r_held (q_rpc s)) @
          map s_addr (map buf (q_chan s)) @
          map s_addr (w_held (q_wpc s) (q_bufs s) (q_originalBufs s)) @ map s_addr (q_pool s))"
    using assms by (simp add: own_ok_def owned_def)
  then have "?R \<inter> ?C = {} \<and> ?R \<inter> ?W = {} \<and> ?H \<inter> ?C = {} \<and> ?H \<inter> ?W = {}"
    by (rule distinct_parts)
  then show "s_addr x \<notin> ?R \<and> s_addr x \<notin> ?H" using x by (rule disj_parts)
qed

lemma own_held_read:
  assumes "own_ok s"
  shows "s_addr ` set (r_held (q_rpc s)) \<inter> s_addr ` set (q_readBufs s) = {}"
  using assms by (auto simp: own_ok_def owned_def)

lemma in_flight_split:
  "in_flight s = map (slice_bytes (q_heap s)) (w_pay (q_wpc s) (q_bufs s) @ map pkt_slice (q_chan s))
                 @ map (slice_bytes (q_heap s)) (r_pend (q_rpc s) (q_readBufs s) (q_sizes s) (q_n s))"
  by (simp add: in_flight_def in_flight_slices_def)

lemma cons_reader_read:
  assumes "qwf s" "own_ok s" "conserved all s" "q_rpc s = R_Read"
  shows "conserved all (readToChannel_step c s)"
proof (cases "q_src s")
  case Nil
  then show ?thesis using assms by (simp add: readToChannel_step_def reader_read_def)
next
  case (Cons ro rest)
  obtain h bufs2 sizes2 where dr: "dev_read 0 (ro_effs ro) (q_heap s, q_readBufs s, q_sizes s) = (h, bufs2, sizes2)"
    by (cases "dev_read 0 (ro_effs ro) (q_heap s, q_readBufs s, q_sizes s)") auto
  note e = reader_read_effect [OF assms(1,4) Cons dr]
  let ?s' = "readToChannel_step c s"
  let ?wc = "w_pay (q_wpc s) (q_bufs s) @ map pkt_slice (q_chan s)"
  have rok: "outcome_ok ro" using assms(1) Cons by (simp add: qwf_def src_ok_def)
  have fr: "h a = q_heap s a" if "a \<notin> s_addr ` set (q_readBufs s)" for a
    using dev_read_frame [OF dr, of a] that by simp
  have "\<forall>b \<in> set ?wc. h (s_addr b) = q_heap s (s_addr b)"
    using own_disj [OF assms(2)] fr by blast
  then have wc: "map (slice_bytes h) ?wc = map (slice_bytes (q_heap s)) ?wc"
    by (rule payload_frame)
  have f: "q_heap ?s' = h" "q_wpc ?s' = q_wpc s" "q_bufs ?s' = q_bufs s" "q_chan ?s' = q_chan s"
    "q_readBufs ?s' = q_readBufs s" "q_sizes ?s' = sizes2" "q_n ?s' = ro_n ro"
    "written (q_events ?s') = written (q_events s)" "q_src ?s' = rest"
    "q_rpc ?s' = (if ro_err ro then R_Stopped else if 0 < ro_n ro then R_Acquire 0 else R_Read)"
    by (simp_all add: e(4))
  have d: "distinct (map s_addr (q_readBufs s))" using assms(2) by (simp add: own_ok_def owned_def)
  have pl: "map (slice_bytes h) (map (rd_slice bufs2 sizes2) [0..<length (ro_effs ro)])
              = map ef_data (ro_effs ro)"
    using rok assms(1) d
    by (intro dev_read_payloads [OF dr]) (auto simp: outcome_ok_def qwf_def list_all_iff)
  have r: "map (slice_bytes h) (r_pend (q_rpc ?s') (q_readBufs s) sizes2 (ro_n ro)) @ unread ?s'
             = unread s"
  proof (cases "ro_err ro")
    case True
    then show ?thesis using assms(4) Cons by (simp add: f unread_def)
  next
    case False
    then have n: "ro_n ro = int (length (ro_effs ro))" using rok by (simp add: outcome_ok_def)
    show ?thesis
    proof (cases "0 < ro_n ro")
      case True
      then show ?thesis using False assms(4) Cons pl n by (simp add: f unread_def e(1))
    next
      case z: False
      then show ?thesis using False assms(4) Cons n by (simp add: f unread_def)
    qed
  qed
  have "in_flight ?s' @ unread ?s' = in_flight s @ unread s"
    using r wc assms(4) by (simp add: in_flight_split f)
  then show ?thesis by (intro conservedI [OF assms(3), where X = "[]"]) (simp_all add: f)
qed

lemma cons_reader_acquire:
  assumes "qwf s" "own_ok s" "conserved all s" "q_rpc s = R_Acquire i"
  shows "conserved all (readToChannel_step c s)"
proof -
  let ?s' = "readToChannel_step c s"
  have h: "\<forall>a < q_next s. q_heap ?s' a = q_heap s a"
    using assms(4)
    by (simp add: readToChannel_step_def reader_acquire_def emit_def alloc_def zero_at_def)
  have f: "in_flight_slices ?s' = in_flight_slices s" "written (q_events ?s') = written (q_events s)"
     "unread ?s' = unread s"
    using assms(4)
    by (simp_all add: readToChannel_step_def reader_acquire_def emit_def alloc_def
           in_flight_slices_def unread_def)
  have "in_flight ?s' = in_flight s"
    using in_flight_fresh [OF assms(1,2) h] by (simp add: in_flight_def f)
  then show ?thesis by (intro conservedI [OF assms(3), where X = "[]"]) (simp_all add: f)
qed

lemma cons_reader_fill:
  assumes "qwf s" "own_ok s" "conserved all s" "q_rpc s = R_Fill i b"
  shows "conserved all (readToChannel_step c s)"
proof -
  let ?s' = "readToChannel_step c s"
  let ?wc = "w_pay (q_wpc s) (q_bufs s) @ map pkt_slice (q_chan s)"
  let ?sz = "q_sizes s ! i + int offset"
  let ?src = "rd_slice (q_readBufs s) (q_sizes s) i"
  let ?rest = "map (rd_slice (q_readBufs s) (q_sizes s)) [Suc i..<nat (q_n s)]"
  have i: "i < batchSize" "i < length (q_sizes s)" "i < length (q_readBufs s)" "i < nat (q_n s)"
     "nat (q_n s) \<le> length (q_readBufs s)" "full b"
    using assms by (auto simp: qwf_def rpc_ok_def)
  have so: "size_ok (q_sizes s ! i)" using assms(1) i by (auto simp: qwf_def list_all_iff)
  have sz: "int64 ?sz = ?sz" using so by (rule size_ok_int64)
  have cap: "s_cap (q_readBufs s ! i) = mtuSize + offset"
    using assms(1) i by (auto simp: qwf_def list_all_iff)
  then have rs: "reslice (q_readBufs s ! i) ?sz = Some ?src"
    using so by (simp add: reslice_def size_ok_def rd_slice_def)
  have up: "[i..<nat (q_n s)] = i # [Suc i..<nat (q_n s)]" using i by (simp add: upt_conv_Cons)
  have bo: "s_addr b \<notin> s_addr ` set (q_readBufs s)"
    using own_held_read [OF assms(2)] assms(4) by simp
  have bn: "s_addr b < q_next s" using assms(2,4) by (simp add: own_ok_def owned_def)
  have rn: "\<forall>x \<in> set (q_readBufs s). s_addr x < q_next s"
    using assms(2) by (simp add: own_ok_def owned_def list_all_iff)
  have wn: "\<forall>x \<in> set ?wc. s_addr x < q_next s \<and> s_addr x \<noteq> s_addr b"
  proof
    fix x assume x: "x \<in> set ?wc"
    then have "x \<in> set (in_flight_slices s)" by (auto simp: in_flight_slices_def)
    then have "s_addr x \<in> s_addr ` set (owned s)" using in_flight_addrs [OF assms(1)] by blast
    then have "s_addr x < q_next s" using assms(2) by (auto simp: own_ok_def list_all_iff)
    moreover have "s_addr x \<noteq> s_addr b" using own_disj [OF assms(2)] x assms(4) by auto
    ultimately show "s_addr x < q_next s \<and> s_addr x \<noteq> s_addr b" by simp
  qed
  have rest_in: "\<forall>x \<in> set (?src # ?rest). s_addr x \<in> s_addr ` set (q_readBufs s)"
    using i by auto
  have ra: "\<forall>x \<in> set ?rest. s_addr x < q_next s \<and> s_addr x \<noteq> s_addr b"
  proof
    fix x assume "x \<in> set ?rest"
    then have "x \<in> set (?src # ?rest)" by (rule list.set_intros(2))
    then have "s_addr x \<in> s_addr ` set (q_readBufs s)" using rest_in by blast
    then show "s_addr x < q_next s \<and> s_addr x \<noteq> s_addr b" using rn bo by auto
  qed
  have wr: "\<forall>x \<in> set (?wc @ ?rest). s_addr x < q_next s \<and> s_addr x \<noteq> s_addr b"
    using wn ra unfolding set_append by blast
  show ?thesis
  proof (cases "int (s_cap b) < ?sz")
    case True
    let ?nb = "make_slice (q_next s) (nat ?sz)"
    let ?p = "\<lparr>buf = ?nb, psize = ?sz\<rparr>"
    let ?h = "copy_slice (zero_at (q_heap s) (q_next s)) ?nb ?src"
    have e: "?s' = s\<lparr>q_heap := ?h, q_next := Suc (q_next s), q_rpc := R_Send i ?p,
                      q_events := EvLog LogBufferTooSmall # q_events s\<rparr>"
      using assms(4) i True
      by (simp add: readToChannel_step_def reader_fill_def sz rs emit_def alloc_def Let_def)
    have fr: "?h a = q_heap s a" if "a < q_next s" for a
      using that by (simp add: copy_slice_def zero_at_def make_slice_def)
    have "\<forall>x \<in> set (?wc @ ?rest). ?h (s_addr x) = q_heap s (s_addr x)"
      using wr fr by blast
    then have o: "map (slice_bytes ?h) (?wc @ ?rest) = map (slice_bytes (q_heap s)) (?wc @ ?rest)"
      by (rule payload_frame)
    have sn: "s_addr ?src < q_next s" using rn i by simp
    have "slice_bytes ?h (pkt_slice ?p) = slice_bytes (zero_at (q_heap s) (q_next s)) ?src"
      using sn by (intro slice_bytes_copy) (simp_all add: pkt_slice_def make_slice_def rd_slice_def)
    also have "\<dots> = slice_bytes (q_heap s) ?src"
      using sn by (intro slice_bytes_zero_at_other) simp
    finally have p: "slice_bytes ?h (pkt_slice ?p) = slice_bytes (q_heap s) ?src" .
    have "in_flight ?s' = in_flight s"
      using o p assms(4) up by (simp add: in_flight_split e)
    moreover have "unread ?s' = unread s" using assms(4) by (simp add: e unread_def)
    ultimately show ?thesis
      by (intro conservedI [OF assms(3), where X = "[]"]) (simp_all add: e)
  next
    case False
    let ?p = "\<lparr>buf = b, psize = ?sz\<rparr>"
    let ?h = "copy_slice (q_heap s) b ?src"
    have e: "?s' = s\<lparr>q_heap := ?h, q_rpc := R_Send i ?p\<rparr>"
      using assms(4) i False
      by (simp add: readToChannel_step_def reader_fill_def sz rs Let_def)
    have fr: "?h a = q_heap s a" if "a \<noteq> s_addr b" for a
      using that by (simp add: copy_slice_def)
    have "\<forall>x \<in> set (?wc @ ?rest). ?h (s_addr x) = q_heap s (s_addr x)"
      using wr fr by blast
    then have o: "map (slice_bytes ?h) (?wc @ ?rest) = map (slice_bytes (q_heap s)) (?wc @ ?rest)"
      by (rule payload_frame)
    have "s_addr (q_readBufs s ! i) \<in> s_addr ` set (q_readBufs s)" using i(3) by simp
    then have sb: "s_addr ?src \<noteq> s_addr b" using bo by auto
    have le: "nat ?sz \<le> s_len b" using False i(6) by (simp add: full_def)
    have p: "slice_bytes ?h (pkt_slice ?p) = slice_bytes (q_heap s) ?src"
      using sb le by (intro slice_bytes_copy) (simp_all add: pkt_slice_def rd_slice_def)
    have "in_flight ?s' = in_flight s"
      using o p assms(4) up by (simp add: in_flight_split e)
    moreover have "unread ?s' = unread s" using assms(4) by (simp add: e unread_def)
    ultimately show ?thesis
      by (intro conservedI [OF assms(3), where X = "[]"]) (simp_all add: e)
  qed
qed

lemma cons_reader_send:
  assumes "qwf s" "own_ok s" "conserved all s" "q_rpc s = R_Send i p"
  shows "conserved all (readToChannel_step c s)"
proof (cases "length (q_chan s) < chanCap")
  case False
  then show ?thesis using assms by (simp add: readToChannel_step_def reader_send_def)
next
  case True
  let ?s' = "readToChannel_step c s"
  have e: "?s' = s\<lparr>q_chan := q_chan s @ [p],
                    q_rpc := (if int (Suc i) < q_n s then R_Acquire (Suc i) else R_Read),
                    q_events := EvSend # q_events s\<rparr>"
    using assms(4) True by (simp add: readToChannel_step_def reader_send_def emit_def)
  have z: "\<not> int (Suc i) < q_n s \<Longrightarrow> [Suc i..<nat (q_n s)] = []" by auto
  have "in_flight ?s' = in_flight s"
    using assms(4) z by (auto simp: in_flight_split e)
  moreover have "unread ?s' = unread s" using assms(4) by (simp add: e unread_def)
  ultimately show ?thesis
    by (intro conservedI [OF assms(3), where X = "[]"]) (simp_all add: e)
qed

lemma cons_reader:
  assumes "qwf s" "own_ok s" "conserved all s"
  shows "conserved all (readToChannel_step c s)"
proof (cases "q_rpc s")
  case R_Stopped
  then show ?thesis using assms by (simp add: readToChannel_step_def)
qed (simp_all add: assms cons_reader_read cons_reader_acquire cons_reader_fill cons_reader_send)

lemma w_pay_store:
  "n < length bufs \<Longrightarrow>
   w_pay (if Suc n < m then W_Collect (Suc n) else W_Write (Suc n)) (bufs[n := x])
     = take n bufs @ [x]"
  by (simp add: take_Suc_update)

lemma cons_writer:
  assumes "qwf s" "own_ok s" "conserved all s"
  shows "conserved all (writeFromChannel_step s)"
proof (cases "q_wpc s")
  case W_Wait
  show ?thesis
  proof (cases "q_chan s")
    case Nil
    then show ?thesis using assms W_Wait by (simp add: writeFromChannel_step_def writer_wait_def)
  next
    case (Cons pkt rest)
    let ?s' = "writeFromChannel_step s"
    note e = writer_wait_effect [OF assms(1) W_Wait Cons]
    have l: "0 < length (q_bufs s)" using assms(1) by (simp add: qwf_def batchSize_def)
    have "in_flight ?s' = in_flight s"
      using W_Wait Cons l by (simp add: e in_flight_def in_flight_slices_def take1_update)
    moreover have "unread ?s' = unread s" by (simp add: e unread_def)
    ultimately show ?thesis
      by (intro conservedI [OF assms(3), where X = "[]"]) (simp_all add: e)
  qed
next
  case (W_Collect n)
  show ?thesis
  proof (cases "q_chan s")
    case Nil
    let ?s' = "writeFromChannel_step s"
    have e: "?s' = s\<lparr>q_wpc := W_Write n, q_events := EvPoll False # q_events s\<rparr>"
      using W_Collect Nil by (simp add: writeFromChannel_step_def writer_collect_def emit_def)
    have "in_flight ?s' = in_flight s"
      using W_Collect by (simp add: e in_flight_def in_flight_slices_def)
    moreover have "unread ?s' = unread s" by (simp add: e unread_def)
    ultimately show ?thesis
      by (intro conservedI [OF assms(3), where X = "[]"]) (simp_all add: e)
  next
    case (Cons pkt rest)
    let ?s' = "writeFromChannel_step s"
    note e = writer_collect_effect [OF assms(1) W_Collect Cons]
    have l: "n < length (q_bufs s)" using assms(1) W_Collect by (simp add: qwf_def wpc_ok_def)
    have w: "w_pay (q_wpc ?s') (q_bufs ?s') = take n (q_bufs s) @ [pkt_slice pkt]"
      using w_pay_store [OF l, of batchSize "pkt_slice pkt"] by (simp add: e)
    have o: "q_chan ?s' = rest" "q_rpc ?s' = q_rpc s" "q_readBufs ?s' = q_readBufs s"
      "q_sizes ?s' = q_sizes s" "q_n ?s' = q_n s" "q_heap ?s' = q_heap s" "q_src ?s' = q_src s"
      "written (q_events ?s') = written (q_events s)"
      by (simp_all add: e)
    have "in_flight ?s' = in_flight s"
      using W_Collect Cons by (simp add: in_flight_def in_flight_slices_def w o)
    moreover have "unread ?s' = unread s" by (simp add: unread_def o)
    ultimately show ?thesis
      by (intro conservedI [OF assms(3), where X = "[]"]) (simp_all add: o)
  qed
next
  case (W_Write n)
  let ?s' = "writeFromChannel_step s"
  have p: "\<not> q_panicked s" using assms(1) by (simp add: qwf_def)
  have e: "?s' = s\<lparr>q_nwrites := Suc (q_nwrites s),
             q_events := write_event (q_dst s) (q_nwrites s) (q_heap s) (take n (q_bufs s))
                           @ q_events s,
             q_wpc := (if q_usePool s then W_Release 0 n else W_Wait)\<rparr>"
    using writer_write_effect [OF assms(1) W_Write] p by simp
  have w: "w_pay (q_wpc ?s') (q_bufs ?s') = []" by (simp add: e)
  have o: "q_chan ?s' = q_chan s" "q_rpc ?s' = q_rpc s" "q_readBufs ?s' = q_readBufs s"
    "q_sizes ?s' = q_sizes s" "q_n ?s' = q_n s" "q_heap ?s' = q_heap s" "q_src ?s' = q_src s"
    "written (q_events ?s') = written (q_events s) @ map (slice_bytes (q_heap s)) (take n (q_bufs s))"
    by (simp_all add: e)
  have "map (slice_bytes (q_heap s)) (take n (q_bufs s)) @ in_flight ?s' = in_flight s"
    using W_Write by (simp add: in_flight_def in_flight_slices_def w o)
  moreover have "unread ?s' = unread s" by (simp add: unread_def o)
  ultimately show ?thesis
    by (intro conservedI [OF assms(3), where X = "map (slice_bytes (q_heap s)) (take n (q_bufs s))"])
       (simp_all add: o)
next
  case (W_Release i n)
  let ?s' = "writeFromChannel_step s"
  have i: "i < length (q_originalBufs s)" using assms(1) W_Release by (simp add: qwf_def wpc_ok_def)
  have e: "?s' = s\<lparr>q_pool := q_pool s @ [q_originalBufs s ! i],
                    q_wpc := (if Suc i < n then W_Release (Suc i) n else W_Wait),
                    q_events := EvPut (q_originalBufs s ! i) # q_events s\<rparr>"
    using W_Release i by (simp add: writeFromChannel_step_def writer_release_def emit_def)
  have "in_flight ?s' = in_flight s"
    using W_Release by (simp add: e in_flight_def in_flight_slices_def)
  moreover have "unread ?s' = unread s" by (simp add: e unread_def)
  ultimately show ?thesis
    by (intro conservedI [OF assms(3), where X = "[]"]) (simp_all add: e)
qed

lemma cons_step:
  assumes "qwf s" "own_ok s" "conserved all s"
  shows "conserved all (step a s)"
proof -
  have p: "\<not> q_panicked s" using assms by (simp add: qwf_def)
  show ?thesis
  proof (cases a)
    case (ActReader c)
    then show ?thesis using assms p by (simp add: cons_reader)
  next
    case ActWriter
    then show ?thesis using assms p by (simp add: cons_writer)
  next
    case (ActPoolDrop k)
    then show ?thesis using assms p
      by (simp add: pool_drop_def)
         (auto simp: conserved_def in_flight_def in_flight_slices_def unread_def)
  next
    case (ActPoolPut c d)
    show ?thesis
    proof (cases "q_usePool s")
      case False
      then show ?thesis using ActPoolPut assms p by (simp add: pool_put_def)
    next
      case True
      let ?h = "dev_fill (zero_at (q_heap s) (q_next s)) (make_slice (q_next s) c) d"
      have e: "step a s = s\<lparr>q_heap := ?h, q_next := Suc (q_next s),
                              q_pool := q_pool s @ [make_slice (q_next s) c]\<rparr>"
        using ActPoolPut True p by (simp add: pool_put_def)
      have "\<forall>x < q_next s. ?h x = q_heap s x"
        by (simp add: dev_fill_def zero_at_def make_slice_def)
      then have "map (slice_bytes ?h) (in_flight_slices s) = in_flight s"
        by (rule in_flight_fresh [OF assms(1,2)])
      then have "in_flight (step a s) = in_flight s"
        unfolding e by (simp add: in_flight_def in_flight_slices_def)
      moreover have "unread (step a s) = unread s" unfolding e by (simp add: unread_def)
      ultimately show ?thesis
        by (intro conservedI [OF assms(3), where X = "[]"]) (simp_all add: e del: step.simps)
    qed
  qed
qed

lemma qinv_step: "qinv all s \<Longrightarrow> qinv all (step a s)"
  unfolding qinv_def using qwf_step own_step cons_step by blast

lemma qinv_exec: "qinv all s \<Longrightarrow> qinv all (exec sched s)"
  by (induction sched arbitrary: s) (auto simp: qinv_step simp del: step.simps)

lemma addr_zip:
  "length xs = length ys \<Longrightarrow> map s_addr (map (\<lambda>(a, c). make_slice a c) (zip xs ys)) = xs"
  by (induction xs ys rule: list_induct2) (simp_all add: make_slice_def)

lemma queued_init_own: "own_ok (queued_init p caps src dst)"
proof -
  let ?n = "Suc (batchSize + length caps)"
  have z: "map s_addr (map (\<lambda>(a, c). make_slice a c) (zip [Suc batchSize ..< ?n] caps))
             = [Suc batchSize ..< ?n]"
    by (rule addr_zip) (simp del: upt_Suc)
  have "[Suc 0 ..< Suc batchSize] @ [Suc batchSize ..< ?n] = [Suc 0 ..< ?n]"
    using upt_add_eq_append [of 1 "Suc batchSize" "length caps"] by (simp del: upt_Suc)
  then have "map s_addr (owned (queued_init p caps src dst)) = [Suc 0 ..< ?n]"
    unfolding owned_def queued_init_def
    by (simp add: map_addr_make_bufs z del: upt_Suc map_map)
  moreover have "q_next (queued_init p caps src dst) = ?n"
    by (simp add: queued_init_def)
  ultimately have "distinct (map s_addr (owned (queued_init p caps src dst))) \<and>
     (\<forall>a \<in> set (map s_addr (owned (queued_init p caps src dst))). a < q_next (queued_init p caps src dst))"
    by simp
  then show ?thesis by (simp add: own_ok_def list_all_iff)
qed

lemma queued_init_conserved: "conserved (packets_of src) (queued_init p caps src dst)"
  by (simp add: conserved_def in_flight_def in_flight_slices_def unread_def queued_init_def)

lemma queued_init_qinv: "src_ok src \<Longrightarrow> qinv (packets_of src) (queued_init p caps src dst)"
  by (simp add: qinv_def queued_init_qwf queued_init_own queued_init_conserved)

lemma queued_conserved:
  "src_ok src \<Longrightarrow> conserved (packets_of src) (exec sched (queued_init p caps src dst))"
  using qinv_exec [OF queued_init_qinv] by (simp add: qinv_def)

text \<open>Nothing is left between the source and the destination.\<close>

definition drained :: "qstate \<Rightarrow> bool" where
  "drained s = (in_flight s = [] \<and> unread s = [])"

text \<open>
  Claim C6. Let the source keep its contract. After any number of iterations of
  \<open>forward\<close> the packets written so far, followed by those the source still holds, are
  the packets of the source in their order. Under every schedule of the queued
  pipeline, with or without pooling, the packets written so far, followed by those of the
  batch of the writer, those in the queue in the order of their dequeue, those the
  reader has read and not yet sent, and those the source still holds, are the packets
  of the source in their order. So what has been written is always an initial
  segment of what the source produced.
\<close>

theorem C6_order_preserved:
  assumes "src_ok src"
    and "u = forward k (forward_init src d)"
    and "t = exec sched (queued_init p caps src d)"
  shows "written (f_events u) @ (if f_status u = Exited then [] else packets_of (f_src u))
           = packets_of src \<and>
         written (q_events t) @ in_flight t @ unread t = packets_of src \<and>
         written (f_events u) = take (length (written (f_events u))) (packets_of src) \<and>
         written (q_events t) = take (length (written (q_events t))) (packets_of src)"
proof -
  have a: "written (f_events u) @ (if f_status u = Exited then [] else packets_of (f_src u))
             = packets_of src"
    using forward_cons [OF forward_init_cons [OF assms(1)], of k d]
    by (auto simp: fwd_cons_def assms)
  have b: "written (q_events t) @ in_flight t @ unread t = packets_of src"
    using queued_conserved [OF assms(1), of sched p caps d]
    by (simp add: conserved_def assms)
  have p: "xs = take (length xs) zs" if "xs @ ys = zs" for xs ys zs :: "byte list list"
    using that by auto
  show ?thesis using a b p [OF a] p [OF b] by simp
qed

text \<open>
  With a source that keeps its contract the three configurations agree: what each has
  written is an initial segment of the packets of the source, and once nothing is left
  between source and destination each has written all of them, whatever the batches.
\<close>

lemma configurations_agree:
  assumes "src_ok src"
    and "u = forward k (forward_init src d0)"
    and "t1 = exec sched1 (queued_init False caps1 src d1)"
    and "t2 = exec sched2 (queued_init True caps2 src d2)"
  shows "written (f_events u) = take (length (written (f_events u))) (packets_of src) \<and>
         written (q_events t1) = take (length (written (q_events t1))) (packets_of src) \<and>
         written (q_events t2) = take (length (written (q_events t2))) (packets_of src) \<and>
         (length src \<le> k \<and> drained t1 \<and> drained t2 \<longrightarrow>
            written (f_events u) = packets_of src \<and>
            written (q_events t1) = packets_of src \<and>
            written (q_events t2) = packets_of src)"
proof -
  have a: "written (f_events u) @ (if f_status u = Exited then [] else packets_of (f_src u))
             = packets_of src"
    using forward_cons [OF forward_init_cons [OF assms(1)], of k d0]
    by (auto simp: fwd_cons_def assms)
  have b: "written (q_events t1) @ in_flight t1 @ unread t1 = packets_of src"
    using queued_conserved [OF assms(1), of sched1 False caps1 d1]
    by (simp add: conserved_def assms)
  have c: "written (q_events t2) @ in_flight t2 @ unread t2 = packets_of src"
    using queued_conserved [OF assms(1), of sched2 True caps2 d2]
    by (simp add: conserved_def assms)
  have p: "xs = take (length xs) zs" if "xs @ ys = zs" for xs ys zs :: "byte list list"
    using that by auto
  have d: "written (f_events u) = packets_of src" if "length src \<le> k"
    unfolding assms(2) by (rule forward_all_written [OF assms(1) that])
  show ?thesis
    using p [OF a] p [OF b] p [OF c] b c d by (auto simp: drained_def)
qed


lemma src_two_reads_ok: "src_ok src_two_reads"
  by (simp add: src_ok_def outcome_ok_def eff_ok_def src_two_reads_def pkt7_def pkt89_def
        batchSize_def mtuSize_def offset_def)

text \<open>
  C6 on a source of two reads of one packet: after one iteration \<open>forward\<close> has
  written the first packet; in the queued pipeline the writer holds the first packet
  and the second is still to be read.
\<close>

theorem C6_order_preserved_witness:
  "src_ok src_two_reads \<and>
   f_status (forward 1 (forward_init src_two_reads dst_accept)) = Running \<and>
   written (f_events (forward 1 (forward_init src_two_reads dst_accept)))
     = [[0, 0, 0, 0, 0, 0, 0, 0, 0, 0, 7]] \<and>
   written (f_events (forward 1 (forward_init src_two_reads dst_accept)))
     @ packets_of (f_src (forward 1 (forward_init src_two_reads dst_accept)))
     = [[0, 0, 0, 0, 0, 0, 0, 0, 0, 0, 7], [0, 0, 0, 0, 0, 0, 0, 0, 0, 0, 8, 9]] \<and>
   written (q_events (exec sched_before_write (queued_init True [] src_two_reads dst_accept))) = [] \<and>
   unread (exec sched_before_write (queued_init True [] src_two_reads dst_accept))
     = [[0, 0, 0, 0, 0, 0, 0, 0, 0, 0, 8, 9]] \<and>
   in_flight (exec sched_before_write (queued_init True [] src_two_reads dst_accept))
     @ unread (exec sched_before_write (queued_init True [] src_two_reads dst_accept))
     = [[0, 0, 0, 0, 0, 0, 0, 0, 0, 0, 7], [0, 0, 0, 0, 0, 0, 0, 0, 0, 0, 8, 9]]"
proof -
  let ?u = "forward 1 (forward_init src_two_reads dst_accept)"
  let ?t = "exec sched_before_write (queued_init True [] src_two_reads dst_accept)"
  have p: "packets_of src_two_reads
             = [[0, 0, 0, 0, 0, 0, 0, 0, 0, 0, 7], [0, 0, 0, 0, 0, 0, 0, 0, 0, 0, 8, 9]]"
    by (simp add: src_two_reads_def pkt7_def pkt89_def)
  have f: "f_status ?u = Running"
    "written (f_events ?u) = [[0, 0, 0, 0, 0, 0, 0, 0, 0, 0, 7]]"
    by (simp_all add: fwd_eval src_two_reads_def pkt7_def pkt89_def dst_accept_def)
  have q: "written (q_events ?t) = []" "unread ?t = [[0, 0, 0, 0, 0, 0, 0, 0, 0, 0, 8, 9]]"
    by (simp_all add: unread_def sched_before_write_def src_two_reads_def q_eval)
  from C6_order_preserved [OF src_two_reads_ok refl refl, where k = 1 and d = dst_accept
                 and sched = sched_before_write and p = True and caps = "[]"] p f q
  show ?thesis by (simp add: src_two_reads_ok)
qed

section \<open>The three configurations on a Device that truncates\<close>

lemma reset_bufs_update:
  assumes "0 \<le> m" "m \<le> int n" "m \<le> int (s_cap x)"
  shows "reset_bufs ((map (s_len_update (\<lambda>_. l)) (make_bufs k a n))[i := x]) m
           = Some ((map (s_len_update (\<lambda>_. nat m)) (make_bufs k a n))[i := x\<lparr>s_len := nat m\<rparr>])"
proof -
  let ?bs = "(map (s_len_update (\<lambda>_. l)) (make_bufs k a n))[i := x]"
  have "\<forall>b \<in> set ?bs. m \<le> int (s_cap b)"
  proof
    fix b assume "b \<in> set ?bs"
    then have "b = x \<or> b \<in> set (map (s_len_update (\<lambda>_. l)) (make_bufs k a n))"
      using set_update_subset_insert [of "map (s_len_update (\<lambda>_. l)) (make_bufs k a n)" i x] by auto
    then show "m \<le> int (s_cap b)" using assms by (auto dest: set_make_bufs)
  qed
  then have "reset_bufs ?bs m = Some (map (\<lambda>b. b\<lparr>s_len := nat m\<rparr>) ?bs)"
    by (rule reset_bufs_Some [OF assms(1)])
  then show ?thesis by (simp add: map_update comp_def)
qed

text \<open>The pipeline of \<open>sched_two_reads\<close> with the release of each buffer.\<close>

definition sched_two_reads_pool :: "action list" where
  "sched_two_reads_pool =
     [ActReader 0, ActReader 0, ActReader 0, ActReader 0, ActWriter, ActWriter, ActWriter, ActWriter,
      ActReader 0, ActReader 0, ActReader 0, ActReader 0, ActWriter, ActWriter, ActWriter, ActWriter]"

text \<open>
  Claim C3 on the code, with the Device of C5 that truncates the buffers it fills.
  \<open>forward\<close> resets its buffers before every \<open>Read\<close> and writes both packets whole.
  The reader of the queued pipeline does not: with pooling off and with pooling on the
  second packet reaches the destination with its last byte missing. The
  configurations do not write the same payload bytes.
\<close>

theorem C3_configurations_differ_on_truncated_buffers:
  "written (f_events (forward 2 (forward_init src_truncating dst_accept)))
     = [[0, 0, 0, 0, 0, 0, 0, 0, 0, 0, 7], [0, 0, 0, 0, 0, 0, 0, 0, 0, 0, 8, 9]] \<and>
   written (q_events (exec sched_two_reads (queued_init False [] src_truncating dst_accept)))
     = [[0, 0, 0, 0, 0, 0, 0, 0, 0, 0, 7], [0, 0, 0, 0, 0, 0, 0, 0, 0, 0, 8, 0]] \<and>
   written (q_events (exec sched_two_reads_pool (queued_init True [] src_truncating dst_accept)))
     = [[0, 0, 0, 0, 0, 0, 0, 0, 0, 0, 7], [0, 0, 0, 0, 0, 0, 0, 0, 0, 0, 8, 0]]"
proof -
  have a: "written (f_events (forward 2 (forward_init src_truncating dst_accept)))
     = [[0, 0, 0, 0, 0, 0, 0, 0, 0, 0, 7], [0, 0, 0, 0, 0, 0, 0, 0, 0, 0, 8, 9]]"
    by (simp add: fwd_eval src_truncating_def pkt7_def pkt89_def dst_accept_def numeral_2_eq_2
          reset_bufs_update map_update slice_bytes_def dev_fill_def upt_rec)
  have b: "written (q_events (exec sched_two_reads (queued_init False [] src_truncating dst_accept)))
     = [[0, 0, 0, 0, 0, 0, 0, 0, 0, 0, 7], [0, 0, 0, 0, 0, 0, 0, 0, 0, 0, 8, 0]]"
    by (simp add: sched_two_reads_def src_truncating_def q_eval map_update
          slice_bytes_def dev_fill_def copy_slice_def zero_at_def upt_rec)
  have c: "written (q_events (exec sched_two_reads_pool (queued_init True [] src_truncating dst_accept)))
     = [[0, 0, 0, 0, 0, 0, 0, 0, 0, 0, 7], [0, 0, 0, 0, 0, 0, 0, 0, 0, 0, 8, 0]]"
    by (simp add: sched_two_reads_pool_def src_truncating_def q_eval map_update
          slice_bytes_def dev_fill_def copy_slice_def zero_at_def upt_rec)
  show ?thesis using a b c by simp
qed

end
